theory Spec2Isabelle
  imports Main "HOL-Library.Sublist"
begin

section \<open>Text\<close>

text \<open>
  A Go string is modelled as the list of its Unicode code points, which is what
  \<^verbatim>\<open>range\<close> over a string, \<^verbatim>\<open>strings.TrimSpace\<close>, \<^verbatim>\<open>strings.ToLower\<close> and the
  \<^verbatim>\<open>regexp\<close> package work on. Byte slices that hold text (\<^verbatim>\<open>[]byte\<close>, \<^verbatim>\<open>bytes.Buffer\<close>)
  have the same type; \<^verbatim>\<open>string(b)\<close> is the identity. Literals of the source are written
  \<open>str ''...''\<close>.
\<close>

type_synonym rune = int
type_synonym gostring = "rune list"

definition str :: "string \<Rightarrow> gostring" where
  "str s = map of_char s"

abbreviation NL :: rune where
  "NL \<equiv> 10"

text \<open>\<^verbatim>\<open>unicode.IsSpace\<close>: the White\_Space code points.\<close>

definition isSpace :: "rune \<Rightarrow> bool" where
  "isSpace r = (r \<in> set [0x09, 0x0A, 0x0B, 0x0C, 0x0D, 0x20, 0x85, 0xA0, 0x1680,
                          0x2028, 0x2029, 0x202F, 0x205F, 0x3000]
                \<or> (0x2000 \<le> r \<and> r \<le> 0x200A))"

definition TrimLeftFunc :: "gostring \<Rightarrow> (rune \<Rightarrow> bool) \<Rightarrow> gostring" where
  "TrimLeftFunc s f = dropWhile f s"

definition TrimRightFunc :: "gostring \<Rightarrow> (rune \<Rightarrow> bool) \<Rightarrow> gostring" where
  "TrimRightFunc s f = rev (dropWhile f (rev s))"

definition TrimSpace :: "gostring \<Rightarrow> gostring" where
  "TrimSpace s = TrimRightFunc (TrimLeftFunc s isSpace) isSpace"

definition TrimRight :: "gostring \<Rightarrow> gostring \<Rightarrow> gostring" where
  "TrimRight s cutset = TrimRightFunc s (\<lambda>r. r \<in> set cutset)"

definition TrimLeft :: "gostring \<Rightarrow> gostring \<Rightarrow> gostring" where
  "TrimLeft s cutset = TrimLeftFunc s (\<lambda>r. r \<in> set cutset)"

definition HasPrefix :: "gostring \<Rightarrow> gostring \<Rightarrow> bool" where
  "HasPrefix s p = prefix p s"

definition HasSuffix :: "gostring \<Rightarrow> gostring \<Rightarrow> bool" where
  "HasSuffix s p = suffix p s"

fun Join :: "gostring list \<Rightarrow> gostring \<Rightarrow> gostring" where
  "Join [] sep = []"
| "Join [x] sep = x"
| "Join (x # y # ys) sep = x @ sep @ Join (y # ys) sep"

text \<open>
  \<^verbatim>\<open>strings.Split\<close>: cut at every (leftmost, non-overlapping) occurrence of the separator;
  a text without the separator is returned as the only element; an empty separator
  splits into single code points.
\<close>

function Split :: "gostring \<Rightarrow> gostring \<Rightarrow> gostring list" where
  "Split s sep =
     (if sep = [] then map (\<lambda>r. [r]) s
      else if s = [] then [[]]
      else if prefix sep s then [] # Split (drop (length sep) s) sep
      else (case Split (tl s) sep of [] \<Rightarrow> [[hd s]] | x # xs \<Rightarrow> (hd s # x) # xs))"
  by pat_completeness auto
termination
  by (relation "measure (\<lambda>(s, sep). length s)") auto

declare Split.simps [simp del]

section \<open>Errors and library calls\<close>

text \<open>
  A function of the source that returns \<^verbatim>\<open>(T, error)\<close> returns \<open>error + T\<close> here. A
  run-time panic, after which the call does not return at all, is the value
  \<open>Inl (Panic msg)\<close>.
\<close>

datatype error =
    LibError string
  | MultipartWithoutBoundary
  | NoTextPartFound
  | Panic string

text \<open>
  More of the \<^verbatim>\<open>strings\<close> package. \<^verbatim>\<open>strings.ToLower\<close> maps every code point to its
  lower case: the capital ASCII letters, and U+0130 and U+212A, whose lower cases are the
  ASCII letters \<open>i\<close> and \<open>k\<close>. Other code points above U+007F are left as they are: Go
  maps the capital letters among them to small letters that are not ASCII either, and
  the program compares a lowered string with ASCII constants only.
\<close>

definition toLowerRune :: "rune \<Rightarrow> rune" where
  "toLowerRune r =
     (if 65 \<le> r \<and> r \<le> 90 then r + 32
      else if r = 0x130 then 105
      else if r = 0x212A then 107
      else r)"

definition ToLower :: "gostring \<Rightarrow> gostring" where
  "ToLower s = map toLowerRune s"

fun Contains :: "gostring \<Rightarrow> gostring \<Rightarrow> bool" where
  "Contains [] substr = (substr = [])"
| "Contains (r # rs) substr = (prefix substr (r # rs) \<or> Contains rs substr)"

text \<open>
  \<^verbatim>\<open>strings.ReplaceAll\<close>: the leftmost occurrences, not overlapping. An empty \<^verbatim>\<open>old\<close>
  matches before every code point and at the end.
\<close>

function ReplaceAll :: "gostring \<Rightarrow> gostring \<Rightarrow> gostring \<Rightarrow> gostring" where
  "ReplaceAll s old new =
     (if old = [] then new @ concat (map (\<lambda>r. r # new) s)
      else if s = [] then []
      else if prefix old s then new @ ReplaceAll (drop (length old) s) old new
      else hd s # ReplaceAll (tl s) old new)"
  by pat_completeness auto
termination
  by (relation "measure (\<lambda>(s, old, new). length s)") auto

declare ReplaceAll.simps [simp del]

text \<open>\<^verbatim>\<open>strings.Repeat\<close> panics on a negative count.\<close>

definition Repeat :: "gostring \<Rightarrow> int \<Rightarrow> error + gostring" where
  "Repeat s count =
     (if count < 0 then Inl (Panic ''strings: negative Repeat count'')
      else Inr (concat (replicate (nat count) s)))"

text \<open>The verb \<^verbatim>\<open>%d\<close> of \<^verbatim>\<open>fmt.Sprintf\<close>: an integer in decimal.\<close>

function digits :: "nat \<Rightarrow> gostring" where
  "digits n = (if n < 10 then [48 + int n] else digits (n div 10) @ [48 + int (n mod 10)])"
  by pat_completeness auto
termination
  by (relation "measure id") auto

declare digits.simps [simp del]

definition formatInt :: "int \<Rightarrow> gostring" where
  "formatInt n = (if n < 0 then 45 # digits (nat (- n)) else digits (nat n))"

section \<open>Quote folding: \<^verbatim>\<open>hideQuotedPart\<close>\<close>

subsection \<open>The eight patterns\<close>

text \<open>
  The patterns of \<^verbatim>\<open>pats\<close> use only literals, repetition of one character class, an
  optional character and anchors. Each is written as a backtracking matcher in
  continuation style: a matcher takes the rest of the subject and says whether the
  rest of the pattern matches there. All eight are compiled with \<^verbatim>\<open>(?i)\<close> or match
  no letters, so literals compare under simple case folding: besides the two ASCII
  cases, \<open>s\<close> also folds to U+017F and \<open>k\<close> to U+212A.
\<close>

type_synonym matcher = "gostring \<Rightarrow> bool"

definition asciiLower :: "rune \<Rightarrow> rune" where
  "asciiLower r = (if 65 \<le> r \<and> r \<le> 90 then r + 32 else r)"

definition foldEq :: "rune \<Rightarrow> rune \<Rightarrow> bool" where
  "foldEq p c = (asciiLower c = asciiLower p
                 \<or> (asciiLower p = 115 \<and> c = 0x17F)
                 \<or> (asciiLower p = 107 \<and> c = 0x212A))"

text \<open>A literal, then the continuation.\<close>

definition lit :: "string \<Rightarrow> matcher \<Rightarrow> matcher" where
  "lit s k u = (length s \<le> length u
                \<and> list_all2 foldEq (str s) (take (length s) u)
                \<and> k (drop (length s) u))"

text \<open>At least \<open>m\<close> code points of a class (\<^verbatim>\<open>x*\<close> is \<open>rep 0\<close>, \<^verbatim>\<open>x+\<close> is \<open>rep 1\<close>), then the continuation.\<close>

definition rep :: "nat \<Rightarrow> (rune \<Rightarrow> bool) \<Rightarrow> matcher \<Rightarrow> matcher" where
  "rep m cls k u = list_ex (\<lambda>n. list_all cls (take n u) \<and> k (drop n u)) [m..<Suc (length u)]"

text \<open>An optional code point (\<^verbatim>\<open>x?\<close>), then the continuation.\<close>

definition opt :: "rune \<Rightarrow> matcher \<Rightarrow> matcher" where
  "opt c k u = (k u \<or> (case u of [] \<Rightarrow> False | d # ds \<Rightarrow> d = c \<and> k ds))"

text \<open>End of the pattern: \<^verbatim>\<open>MatchString\<close> accepts any remainder.\<close>

definition fin :: matcher where
  "fin u = True"

text \<open>\<^verbatim>\<open>$\<close> under \<^verbatim>\<open>(?m)\<close>: end of text or before a newline.\<close>

definition eolm :: matcher where
  "eolm u = (case u of [] \<Rightarrow> True | d # ds \<Rightarrow> d = NL)"

text \<open>\<^verbatim>\<open>.\<close> (any code point but newline), \<^verbatim>\<open>\s\<close>, \<^verbatim>\<open>\*\<close> and \<^verbatim>\<open>-\<close>.\<close>

definition dot :: "rune \<Rightarrow> bool" where
  "dot r = (r \<noteq> NL)"

definition ws :: "rune \<Rightarrow> bool" where
  "ws r = (r \<in> set [9, 10, 12, 13, 32])"

definition star :: "rune \<Rightarrow> bool" where
  "star r = (r = 42)"

definition dash :: "rune \<Rightarrow> bool" where
  "dash r = (r = 45)"

text \<open>\<^verbatim>\<open>^\<close>: the match starts at offset 0; under \<^verbatim>\<open>(?m)\<close> also after any newline.\<close>

definition atStart :: "matcher \<Rightarrow> matcher" where
  "atStart p t = p t"

definition atLineStart :: "matcher \<Rightarrow> matcher" where
  "atLineStart p t =
     list_ex (\<lambda>n. (n = 0 \<or> t ! (n - 1) = NL) \<and> p (drop n t)) [0..<Suc (length t)]"

definition pats :: "matcher list" where
  "pats =
    [ atStart (lit ''On '' (rep 1 dot (lit '' wrote:'' fin))),
      atStart (rep 0 star (lit ''From:'' (rep 0 ws (rep 1 dot (lit ''@'' (rep 1 dot fin)))))),
      atStart (lit ''Sent:'' (rep 0 ws fin)),
      atStart (rep 0 star (lit ''To:'' (rep 0 ws fin))),
      atStart (rep 0 star (lit ''Subject:'' (rep 0 ws fin))),
      atStart (rep 1 dash (opt 32 (lit ''Original Message'' (opt 32 (rep 1 dash fin))))),
      atStart (lit ''Begin forwarded message:'' fin),
      atLineStart (lit ''--'' (rep 0 ws eolm)) ]"

definition matchesAny :: "gostring \<Rightarrow> bool" where
  "matchesAny trim = list_ex (\<lambda>re. re trim) pats"

subsection \<open>Finding the split index\<close>

text \<open>
  The loop of \<^verbatim>\<open>isQuoteBlock\<close> over \<^verbatim>\<open>lines[j]\<close>, \<open>j = i, i + 1, ...\<close>, as a recursion
  over the remaining lines with the running \<^verbatim>\<open>count\<close>.
\<close>

fun quoteRun :: "gostring list \<Rightarrow> nat \<Rightarrow> nat" where
  "quoteRun [] count = count"
| "quoteRun (l # ls) count =
     (if count < 3 then
        (if HasPrefix (TrimSpace l) (str ''>'') then quoteRun ls (count + 1)
         else if TrimSpace l = [] then quoteRun ls count
         else count)
      else count)"

definition isQuoteBlock :: "gostring list \<Rightarrow> nat \<Rightarrow> bool" where
  "isQuoteBlock lines i = (if i \<ge> length lines then False else quoteRun (drop i lines) 0 \<ge> 3)"

text \<open>
  The scan for the split index, from line \<open>i\<close> on. \<open>None\<close> is the source's
  \<^verbatim>\<open>split == -1\<close>.
\<close>

function findSplit :: "gostring list \<Rightarrow> nat \<Rightarrow> nat option" where
  "findSplit lines i =
     (if i \<ge> length lines then None
      else if TrimSpace (lines ! i) = [] then findSplit lines (i + 1)
      else if isQuoteBlock lines i then Some i
      else if matchesAny (TrimSpace (lines ! i)) then Some i
      else findSplit lines (i + 1))"
  by pat_completeness auto
termination
  by (relation "measure (\<lambda>(lines, i). length lines - i)") auto

declare findSplit.simps [simp del]

subsection \<open>Folding\<close>

definition details :: "gostring \<Rightarrow> gostring" where
  "details quoted =
     str ''<details>\<newline><summary>Show quoted email</summary>\<newline>\<newline>''
     @ TrimRight quoted [NL] @ str ''\<newline>\<newline></details>''"

definition hideQuotedPart :: "gostring \<Rightarrow> bool \<Rightarrow> gostring" where
  "hideQuotedPart md removeQuotes =
     (if TrimSpace md = [] then md
      else
        let lines = Split md [NL] in
        case findSplit lines 0 of
          None \<Rightarrow> md
        | Some split \<Rightarrow>
            let visible = TrimRight (Join (take split lines) [NL]) [NL];
                quoted = TrimLeft (Join (drop split lines) [NL]) [NL]
            in if TrimSpace visible = [] then details quoted
               else if removeQuotes then visible @ [NL]
               else visible @ [NL, NL] @ details quoted)"

text \<open>
  The split index that a call of \<^verbatim>\<open>hideQuotedPart\<close> computes: \<open>None\<close> when it returns
  its input before or after the scan without one.
\<close>

definition splitPoint :: "gostring \<Rightarrow> nat option" where
  "splitPoint md = (if TrimSpace md = [] then None else findSplit (Split md [NL]) 0)"

text \<open>
  The texts \<^verbatim>\<open>visible\<close> and \<^verbatim>\<open>quoted\<close> of \<^verbatim>\<open>hideQuotedPart\<close> for a split index, and the
  lines of a list without its trailing empty lines (what trimming newlines on the right
  leaves of their join).
\<close>

definition visiblePart :: "gostring \<Rightarrow> nat \<Rightarrow> gostring" where
  "visiblePart md split = TrimRight (Join (take split (Split md [NL])) [NL]) [NL]"

definition quotedPart :: "gostring \<Rightarrow> nat \<Rightarrow> gostring" where
  "quotedPart md split = TrimLeft (Join (drop split (Split md [NL])) [NL]) [NL]"

text \<open>
  A run of quoted lines, said of the lines themselves: line \<open>a\<close> and two later lines start
  with \<open>>\<close> after trimming, and every other line between the first and the third of
  them is blank.
\<close>

definition isQuoted :: "gostring \<Rightarrow> bool" where
  "isQuoted l = HasPrefix (TrimSpace l) (str ''>'')"

definition isBlank :: "gostring \<Rightarrow> bool" where
  "isBlank l = (TrimSpace l = [])"

definition quoteRunAt :: "gostring list \<Rightarrow> nat \<Rightarrow> bool" where
  "quoteRunAt lines a =
     (\<exists>b c. a < b \<and> b < c \<and> c < length lines
        \<and> isQuoted (lines ! a) \<and> isQuoted (lines ! b) \<and> isQuoted (lines ! c)
        \<and> (\<forall>j. a < j \<and> j < c \<and> j \<noteq> b \<longrightarrow> isBlank (lines ! j)))"

definition dropEmptyTail :: "gostring list \<Rightarrow> gostring list" where
  "dropEmptyTail ls = rev (dropWhile (\<lambda>l. l = []) (rev ls))"

section \<open>HTML rendering: \<^verbatim>\<open>htmlToPlain\<close>\<close>

subsection \<open>The parsed document\<close>

text \<open>
  A node of \<^verbatim>\<open>golang.org/x/net/html\<close> with its children in order
  (\<^verbatim>\<open>FirstChild\<close>, then \<^verbatim>\<open>NextSibling\<close>). The parser and \<^verbatim>\<open>html.UnescapeString\<close> are
  library code: the functions below take them as the parameters \<open>parse\<close> and
  \<open>unescape\<close>. Instead of the \<^verbatim>\<open>Parent\<close> pointer, the walk carries the answer of
  \<^verbatim>\<open>parentIsPre\<close> for the node it visits.
\<close>

datatype nodeType =
  ErrorNode | TextNode | DocumentNode | ElementNode | CommentNode | DoctypeNode | RawNode

datatype attribute = Attribute (Key: gostring) (Val: gostring)

datatype node = Node (Type: nodeType) (Data: gostring) (Attr: "attribute list") (Children: "node list")

subsection \<open>The buffer and the two stacks\<close>

record rstate =
  buf :: gostring
  listStack :: "gostring list"
  olCounters :: "int list"

definition WriteString :: "rstate \<Rightarrow> gostring \<Rightarrow> rstate" where
  "WriteString st s = st\<lparr>buf := buf st @ s\<rparr>"

definition ensureTwoNewlines :: "rstate \<Rightarrow> rstate" where
  "ensureTwoNewlines st =
     (if HasSuffix (buf st) [NL, NL] then st
      else if HasSuffix (buf st) [NL] then WriteString st [NL]
      else WriteString st [NL, NL])"

text \<open>
  \<^verbatim>\<open>listStack = listStack[:len(listStack)-1]\<close>; slicing an empty slice this way
  panics.
\<close>

definition popList :: "rstate \<Rightarrow> error + rstate" where
  "popList st =
     (if listStack st = [] then Inl (Panic ''slice bounds out of range [:-1]'')
      else Inr (st\<lparr>listStack := butlast (listStack st)\<rparr>))"

definition popCounter :: "rstate \<Rightarrow> rstate" where
  "popCounter st =
     (if length (olCounters st) > 0 then st\<lparr>olCounters := butlast (olCounters st)\<rparr> else st)"

subsection \<open>Helpers of the walk\<close>

fun collectText :: "(gostring \<Rightarrow> gostring) \<Rightarrow> node \<Rightarrow> gostring" where
  "collectText unescape (Node ty d as cs) =
     (if ty = TextNode then unescape d else concat (map (collectText unescape) cs))"

fun gatherInnerText :: "node \<Rightarrow> gostring" where
  "gatherInnerText (Node ty d as cs) =
     (if ty = TextNode then d else concat (map gatherInnerText cs))"

text \<open>
  The loop over the code points of a text node outside \<^verbatim>\<open>pre\<close>: what it writes, from
  the flag \<^verbatim>\<open>space\<close> on.
\<close>

fun collapse :: "gostring \<Rightarrow> bool \<Rightarrow> gostring" where
  "collapse [] space = []"
| "collapse (r # rs) space =
     (if r = 32 \<or> r = NL \<or> r = 9 \<or> r = 13 then collapse rs True
      else (if space then [32] else []) @ r # collapse rs False)"

text \<open>The first attribute whose lowered key is \<^verbatim>\<open>href\<close>, trimmed; empty when there is none.\<close>

fun findHref :: "attribute list \<Rightarrow> gostring" where
  "findHref [] = []"
| "findHref (a # as) = (if ToLower (Key a) = str ''href'' then TrimSpace (Val a) else findHref as)"

text \<open>The loop over the attributes of \<^verbatim>\<open>img\<close>: the last \<^verbatim>\<open>alt\<close> and the last \<^verbatim>\<open>src\<close>.\<close>

fun imgAttrs :: "attribute list \<Rightarrow> gostring \<times> gostring \<Rightarrow> gostring \<times> gostring" where
  "imgAttrs [] (alt, src) = (alt, src)"
| "imgAttrs (a # as) (alt, src) =
     (if ToLower (Key a) = str ''alt'' then imgAttrs as (Val a, src)
      else if ToLower (Key a) = str ''src'' then imgAttrs as (alt, Val a)
      else imgAttrs as (alt, src))"

text \<open>
  \<^verbatim>\<open>fmt.Sscanf(tag[1:], "%d", &level)\<close> for the tags \<open>h1\<close> to \<open>h6\<close>: the digit after
  the \<open>h\<close>.
\<close>

definition headingLevel :: "gostring \<Rightarrow> int" where
  "headingLevel tag = (tag ! 1) - 48"

text \<open>
  The prefix of a list item, and the state after numbering it: only the last counter
  is read and incremented, and only when the innermost list is ordered.
\<close>

definition itemPrefix :: "rstate \<Rightarrow> gostring \<times> rstate" where
  "itemPrefix st =
     (if length (listStack st) > 0 \<and> last (listStack st) = str ''ol'' \<and> length (olCounters st) > 0
      then (formatInt (last (olCounters st)) @ str ''. '',
            st\<lparr>olCounters := butlast (olCounters st) @ [last (olCounters st) + 1]\<rparr>)
      else (str ''- '', st))"

subsection \<open>The walk\<close>

text \<open>
  \<open>walkChildren\<close> is the loop \<^verbatim>\<open>for c := n.FirstChild; c != nil; c = c.NextSibling\<close>
  around \<^verbatim>\<open>walk(c)\<close>. The flag \<open>pre\<close> is \<^verbatim>\<open>parentIsPre\<close> of the visited node; the branch
  of \<^verbatim>\<open>pre\<close> does not walk the children, so every walked child has the flag of its
  parent.
\<close>

fun walk :: "(gostring \<Rightarrow> gostring) \<Rightarrow> bool \<Rightarrow> node \<Rightarrow> rstate \<Rightarrow> error + rstate"
  and walkChildren :: "(gostring \<Rightarrow> gostring) \<Rightarrow> bool \<Rightarrow> node list \<Rightarrow> rstate \<Rightarrow> error + rstate"
where
  "walkChildren unescape pre [] st = Inr st"
| "walkChildren unescape pre (c # cs) st =
     (case walk unescape pre c st of
        Inl e \<Rightarrow> Inl e
      | Inr st' \<Rightarrow> walkChildren unescape pre cs st')"
| "walk unescape pre (Node ty d as cs) st =
     (if ty = TextNode then
        (if pre then Inr (WriteString st (unescape d))
         else Inr (WriteString st (collapse (unescape d) False)))
      else if ty = ElementNode then
        (let tag = ToLower d in
         if tag = str ''br'' then Inr (WriteString st [NL])
         else if tag = str ''p'' \<or> tag = str ''div'' then
           (case walkChildren unescape pre cs (ensureTwoNewlines st) of
              Inl e \<Rightarrow> Inl e
            | Inr s \<Rightarrow> Inr (ensureTwoNewlines s))
         else if tag \<in> set [str ''h1'', str ''h2'', str ''h3'', str ''h4'', str ''h5'', str ''h6''] then
           (case Repeat (str ''#'') (headingLevel tag) of
              Inl e \<Rightarrow> Inl e
            | Inr hashes \<Rightarrow>
               (case walkChildren unescape pre cs
                       (WriteString (ensureTwoNewlines st) (hashes @ str '' '')) of
                  Inl e \<Rightarrow> Inl e
                | Inr s \<Rightarrow> Inr (ensureTwoNewlines s)))
         else if tag = str ''strong'' \<or> tag = str ''b'' then
           (case walkChildren unescape pre cs (WriteString st (str '' **'')) of
              Inl e \<Rightarrow> Inl e
            | Inr s \<Rightarrow> Inr (WriteString s (str ''**'')))
         else if tag = str ''em'' \<or> tag = str ''i'' then
           (case walkChildren unescape pre cs (WriteString st (str '' *'')) of
              Inl e \<Rightarrow> Inl e
            | Inr s \<Rightarrow> Inr (WriteString s (str ''*'')))
         else if tag = str ''a'' then
           (let inner = concat (map (collectText unescape) cs);
                href = findHref as;
                plainText = TrimSpace inner
            in if href = [] \<or> href = plainText
               then Inr (WriteString (WriteString st (str '' '')) plainText)
               else Inr (WriteString (WriteString st (str '' ''))
                           (plainText @ str '' ('' @ href @ str '')'')))
         else if tag = str ''ul'' then
           (case walkChildren unescape pre cs (st\<lparr>listStack := listStack st @ [str ''ul'']\<rparr>) of
              Inl e \<Rightarrow> Inl e
            | Inr s \<Rightarrow>
               (case popList s of
                  Inl e \<Rightarrow> Inl e
                | Inr s' \<Rightarrow> Inr (ensureTwoNewlines s')))
         else if tag = str ''ol'' then
           (case walkChildren unescape pre cs
                   (st\<lparr>listStack := listStack st @ [str ''ol''],
                       olCounters := olCounters st @ [1]\<rparr>) of
              Inl e \<Rightarrow> Inl e
            | Inr s \<Rightarrow>
               (case popList (popCounter s) of
                  Inl e \<Rightarrow> Inl e
                | Inr s' \<Rightarrow> Inr (ensureTwoNewlines s')))
         else if tag = str ''li'' then
           (let (pfx, st1) = itemPrefix st in
            case Repeat (str ''  '') (int (length (listStack st1)) - 1) of
              Inl e \<Rightarrow> Inl e
            | Inr indent \<Rightarrow>
               (case walkChildren unescape pre cs (WriteString st1 (indent @ pfx)) of
                  Inl e \<Rightarrow> Inl e
                | Inr s \<Rightarrow> Inr (WriteString s [NL])))
         else if tag = str ''pre'' then
           (let st1 = WriteString (ensureTwoNewlines st) (str ''```\<newline>'');
                raw = concat (map gatherInnerText cs);
                st2 = WriteString st1 raw;
                st3 = (if \<not> HasSuffix raw [NL] then WriteString st2 [NL] else st2)
            in Inr (ensureTwoNewlines (WriteString st3 (str ''```\<newline>''))))
         else if tag = str ''code'' then
           (if pre then walkChildren unescape pre cs st
            else
              (case walkChildren unescape pre cs (WriteString st (str '' `'')) of
                 Inl e \<Rightarrow> Inl e
               | Inr s \<Rightarrow> Inr (WriteString s (str ''`''))))
         else if tag = str ''img'' then
           (let (alt, src) = imgAttrs as ([], []) in
            if alt \<noteq> [] then Inr (WriteString st (str '' !['' @ alt @ str '']('' @ src @ str '')''))
            else Inr st)
         else walkChildren unescape pre cs st)
      else walkChildren unescape pre cs st)"

declare walk.simps [simp del]

subsection \<open>Post-processing\<close>

lemma ReplaceAll_length:
  "old \<noteq> [] \<Longrightarrow> length new \<le> length old \<Longrightarrow> length (ReplaceAll s old new) \<le> length s"
proof (induction s old new rule: ReplaceAll.induct)
  case (1 s old new)
  show ?case
  proof (cases "s = []")
    case True
    with "1.prems" show ?thesis by (subst ReplaceAll.simps) simp
  next
    case ne: False
    show ?thesis
    proof (cases "prefix old s")
      case True
      then have "length old \<le> length s" by (rule prefix_length_le)
      with "1.IH"(1) [OF "1.prems"(1) ne True "1.prems"] "1.prems" ne True show ?thesis
        by (subst ReplaceAll.simps) simp
    next
      case False
      with "1.IH"(2) [OF "1.prems"(1) ne False "1.prems"] "1.prems" ne show ?thesis
        by (subst ReplaceAll.simps) (cases s; simp)
    qed
  qed
qed

lemma ReplaceAll_shorter:
  "old \<noteq> [] \<Longrightarrow> length new < length old \<Longrightarrow> Contains s old
     \<Longrightarrow> length (ReplaceAll s old new) < length s"
proof (induction s old new rule: ReplaceAll.induct)
  case (1 s old new)
  from "1.prems" have ne: "s \<noteq> []" by (cases s) auto
  show ?case
  proof (cases "prefix old s")
    case True
    then have "length old \<le> length s" by (rule prefix_length_le)
    moreover have "length (ReplaceAll (drop (length old) s) old new) \<le> length (drop (length old) s)"
      using "1.prems" by (intro ReplaceAll_length) auto
    ultimately show ?thesis
      using "1.prems" ne True by (subst ReplaceAll.simps) simp
  next
    case False
    with "1.prems" ne have "Contains (tl s) old" by (cases s) auto
    with "1.IH"(2) [OF "1.prems"(1) ne False "1.prems"(1,2)] "1.prems" ne False show ?thesis
      by (subst ReplaceAll.simps) (cases s; simp)
  qed
qed

text \<open>
  \<^verbatim>\<open>for strings.Contains(s, "\n\n\n") { s = strings.ReplaceAll(s, "\n\n\n", "\n\n") }\<close>:
  every round shortens \<open>s\<close>, so the loop ends.
\<close>

function normalizeBlankLines :: "gostring \<Rightarrow> gostring" where
  "normalizeBlankLines s =
     (if Contains s [NL, NL, NL] then normalizeBlankLines (ReplaceAll s [NL, NL, NL] [NL, NL])
      else s)"
  by pat_completeness auto
termination
  by (relation "measure length") (auto intro: ReplaceAll_shorter)

declare normalizeBlankLines.simps [simp del]

definition htmlToPlain ::
  "(gostring \<Rightarrow> error + node) \<Rightarrow> (gostring \<Rightarrow> gostring) \<Rightarrow> gostring \<Rightarrow> error + gostring" where
  "htmlToPlain parse unescape htmlSrc =
     (case parse htmlSrc of
        Inl err \<Rightarrow> Inl err
      | Inr doc \<Rightarrow>
         (case walk unescape False doc \<lparr>buf = [], listStack = [], olCounters = []\<rparr> of
            Inl p \<Rightarrow> Inl p
          | Inr st \<Rightarrow> Inr (normalizeBlankLines (TrimSpace (buf st)))))"

subsection \<open>Notions used in the statements\<close>

text \<open>
  Two render states agree on the list stack, on the number of counters and on every
  counter but the innermost one.
\<close>

definition outerKept :: "rstate \<Rightarrow> rstate \<Rightarrow> bool" where
  "outerKept st st' =
     (listStack st' = listStack st
      \<and> length (olCounters st') = length (olCounters st)
      \<and> butlast (olCounters st') = butlast (olCounters st))"

text \<open>The innermost open list of a render state is an ordered one.\<close>

definition innermostOrdered :: "rstate \<Rightarrow> bool" where
  "innermostOrdered st = (listStack st \<noteq> [] \<and> last (listStack st) = str ''ol'')"

text \<open>
  Parsed documents for the examples: an element without attributes, a text node, and the
  document that the parser builds around the content of \<^verbatim>\<open>body\<close>.
\<close>

definition elem :: "string \<Rightarrow> node list \<Rightarrow> node" where
  "elem tag cs = Node ElementNode (str tag) [] cs"

definition textNode :: "string \<Rightarrow> node" where
  "textNode s = Node TextNode (str s) [] []"

definition document :: "node list \<Rightarrow> node" where
  "document body = Node DocumentNode [] [] [elem ''html'' [elem ''head'' [], elem ''body'' body]]"

section \<open>Body selection: \<^verbatim>\<open>extractBodyAsMarkdown\<close>\<close>

subsection \<open>Messages, parts and the library\<close>

text \<open>
  An \<^verbatim>\<open>io.Reader\<close> is modelled by what reading it to the end yields: the data read, and
  the error that ended the reading if it was not the end of the data. A header lists
  canonical field names with their values; \<^verbatim>\<open>Get\<close> gives the first value of a field, and
  the empty string for a field that is absent. A \<^verbatim>\<open>mail.Message\<close> and a \<^verbatim>\<open>multipart.Part\<close> both are a header and a
  reader.
\<close>

type_synonym reader = "gostring \<times> error option"

type_synonym header = "(string \<times> gostring) list"

definition Get :: "header \<Rightarrow> string \<Rightarrow> gostring" where
  "Get h key = (case map_of h key of None \<Rightarrow> [] | Some v \<Rightarrow> v)"

record message =
  Header :: header
  Body :: reader

type_synonym part = message

text \<open>
  The calls into packages outside the repository, as parameters:
  \<^item> \<^verbatim>\<open>mime.ParseMediaType\<close> returns the media type, the parameters and an error;
  \<^item> \<^verbatim>\<open>multipart.NewReader\<close> with the calls of \<^verbatim>\<open>NextPart\<close>: the parts in their order, and
    the error of the call after the last part, \<open>None\<close> for \<^verbatim>\<open>io.EOF\<close>;
  \<^item> \<^verbatim>\<open>quotedprintable.NewReader\<close> and \<^verbatim>\<open>base64.NewDecoder\<close> turn a reader into a reader;
  \<^item> \<^verbatim>\<open>charset.NewReaderLabel\<close> returns an error for a label it does not know, else a
    reader of the converted data;
  \<^item> \<^verbatim>\<open>html.Parse\<close> and \<^verbatim>\<open>html.UnescapeString\<close>.
\<close>

record lib =
  ParseMediaType :: "gostring \<Rightarrow> gostring \<times> (gostring \<rightharpoonup> gostring) \<times> error option"
  NewReader :: "reader \<Rightarrow> gostring \<Rightarrow> part list \<times> error option"
  QuotedPrintable :: "reader \<Rightarrow> reader"
  Base64 :: "reader \<Rightarrow> reader"
  NewReaderLabel :: "gostring \<Rightarrow> gostring \<Rightarrow> error + reader"
  Parse :: "gostring \<Rightarrow> error + node"
  UnescapeString :: "gostring \<Rightarrow> gostring"

text \<open>Indexing a \<^verbatim>\<open>map[string]string\<close>: the empty string for a missing key.\<close>

definition param :: "(gostring \<rightharpoonup> gostring) \<Rightarrow> gostring \<Rightarrow> gostring" where
  "param params key = (case params key of None \<Rightarrow> [] | Some v \<Rightarrow> v)"

subsection \<open>\<^verbatim>\<open>readAndDecodePart\<close>\<close>

text \<open>Step 1: the reader after the transfer decoding.\<close>

definition transferDecoded :: "lib \<Rightarrow> reader \<Rightarrow> gostring \<Rightarrow> reader" where
  "transferDecoded L r cteHeader =
     (let cte = ToLower (TrimSpace cteHeader) in
      if cte = str ''quoted-printable'' then QuotedPrintable L r
      else if cte = str ''base64'' then Base64 L r
      else r)"

text \<open>The label that step 3 takes from the Content-Type.\<close>

definition charsetLabel :: "lib \<Rightarrow> gostring \<Rightarrow> gostring" where
  "charsetLabel L contentType =
     (let (mediatype, params, err) = ParseMediaType L contentType
      in ToLower (TrimSpace (param params (str ''charset''))))"

definition readAndDecodePart :: "lib \<Rightarrow> reader \<Rightarrow> gostring \<Rightarrow> gostring \<Rightarrow> error + gostring" where
  "readAndDecodePart L r contentType cteHeader =
     (let (rawBytes, err) = transferDecoded L r cteHeader in
      case err of
        Some e \<Rightarrow> Inl e
      | None \<Rightarrow>
         (let label = charsetLabel L contentType in
          if label = [] \<or> label = str ''utf-8'' \<or> label = str ''us-ascii'' then Inr rawBytes
          else
            (case NewReaderLabel L label rawBytes of
               Inl e \<Rightarrow> Inr rawBytes
             | Inr cr \<Rightarrow>
                (let (convBytes, err) = cr in
                 case err of
                   Some e \<Rightarrow> Inr rawBytes
                 | None \<Rightarrow> Inr convBytes))))"

subsection \<open>The scan over the parts\<close>

definition isAttachment :: "part \<Rightarrow> bool" where
  "isAttachment p = HasPrefix (ToLower (Get (Header p) ''Content-Disposition'')) (str ''attachment'')"

definition partType :: "lib \<Rightarrow> part \<Rightarrow> gostring" where
  "partType L p = fst (ParseMediaType L (Get (Header p) ''Content-Type''))"

definition decodePart :: "lib \<Rightarrow> part \<Rightarrow> error + gostring" where
  "decodePart L p =
     readAndDecodePart L (Body p) (Get (Header p) ''Content-Type'')
       (Get (Header p) ''Content-Transfer-Encoding'')"

text \<open>
  The \<^verbatim>\<open>for\<close> loop over \<^verbatim>\<open>mr.NextPart()\<close> and the code after it, from the parts not yet
  read, the error \<open>perr\<close> that follows the last part (\<open>None\<close> for \<^verbatim>\<open>io.EOF\<close>) and the
  variable \<^verbatim>\<open>firstHTML\<close>.
\<close>

fun scanParts :: "lib \<Rightarrow> part list \<Rightarrow> error option \<Rightarrow> gostring \<Rightarrow> error + gostring" where
  "scanParts L [] perr firstHTML =
     (case perr of
        Some e \<Rightarrow> Inl e
      | None \<Rightarrow>
         (if firstHTML \<noteq> [] then htmlToPlain (Parse L) (UnescapeString L) firstHTML
          else Inr []))"
| "scanParts L (p # rest) perr firstHTML =
     (if isAttachment p then scanParts L rest perr firstHTML
      else if partType L p = str ''text/plain'' then
        (case decodePart L p of
           Inl e \<Rightarrow> Inl e
         | Inr b \<Rightarrow> Inr (TrimSpace b))
      else if partType L p = str ''text/html'' then
        (case decodePart L p of
           Inl e \<Rightarrow> Inl e
         | Inr b \<Rightarrow> scanParts L rest perr b)
      else Inl NoTextPartFound)"

definition extractBodyAsMarkdown :: "lib \<Rightarrow> message \<Rightarrow> error + gostring" where
  "extractBodyAsMarkdown L msg =
     (let ct = Get (Header msg) ''Content-Type'';
          cte = Get (Header msg) ''Content-Transfer-Encoding'';
          (mediatype, params, err) = ParseMediaType L ct
      in if err \<noteq> None then Inr (TrimSpace (fst (Body msg)))
         else if HasPrefix mediatype (str ''multipart/'') then
           (let boundary = param params (str ''boundary'') in
            if boundary = [] then Inl MultipartWithoutBoundary
            else
              (let (parts, perr) = NewReader L (Body msg) boundary
               in scanParts L parts perr []))
         else
           (case readAndDecodePart L (Body msg) ct cte of
              Inl e \<Rightarrow> Inl e
            | Inr bodyBytes \<Rightarrow>
               (if fst (ParseMediaType L ct) = str ''text/html''
                then htmlToPlain (Parse L) (UnescapeString L) bodyBytes
                else Inr (TrimSpace bodyBytes))))"

subsection \<open>A library for the examples\<close>

text \<open>
  The examples need values for the library calls. \<open>exampleLib parts docs\<close> knows the
  Content-Type values of the examples, lets the multipart reader yield \<open>parts\<close>, knows no
  charset label, and parses HTML by the table \<open>docs\<close>. Of the base64 decoder it has one
  case: the input \<open>!!!\<close> ends inside a group of four characters, so the decoder of the
  library reads no data from it and ends with \<^verbatim>\<open>io.ErrUnexpectedEOF\<close>, whose message is
  \<open>unexpected EOF\<close>.
\<close>

definition exampleParse :: "(gostring \<times> node) list \<Rightarrow> gostring \<Rightarrow> error + node" where
  "exampleParse docs src =
     (case map_of docs src of
        None \<Rightarrow> Inl (LibError ''html: no such example'')
      | Some doc \<Rightarrow> Inr doc)"

definition exampleLib :: "part list \<Rightarrow> (gostring \<times> node) list \<Rightarrow> lib" where
  "exampleLib parts docs =
     \<lparr> ParseMediaType = (\<lambda>ct.
          if ct = str ''multipart/alternative; boundary=B''
          then (str ''multipart/alternative'', [str ''boundary'' \<mapsto> str ''B''], None)
          else if ct = str ''text/plain; charset=latin9''
          then (str ''text/plain'', [str ''charset'' \<mapsto> str ''latin9''], None)
          else if ct \<in> set [str ''text/plain'', str ''text/html'', str ''image/png'']
          then (ct, Map.empty, None)
          else ([], Map.empty, Some (LibError ''mime: no media type''))),
       NewReader = (\<lambda>body boundary. (parts, None)),
       QuotedPrintable = (\<lambda>r. r),
       Base64 = (\<lambda>r. if fst r = str ''!!!''
                       then ([], Some (LibError ''unexpected EOF''))
                       else r),
       NewReaderLabel = (\<lambda>label input. Inl (LibError ''charset: unsupported label'')),
       Parse = exampleParse docs,
       UnescapeString = (\<lambda>s. s) \<rparr>"

definition examplePart :: "string \<Rightarrow> string \<Rightarrow> string \<Rightarrow> part" where
  "examplePart contentType cte content =
     \<lparr> Header = [(''Content-Type'', str contentType), (''Content-Transfer-Encoding'', str cte)],
       Body = (str content, None) \<rparr>"

definition exampleMessage :: message where
  "exampleMessage =
     \<lparr> Header = [(''Content-Type'', str ''multipart/alternative; boundary=B'')],
       Body = ([], None) \<rparr>"

text \<open>A part that is an attachment.\<close>

definition exampleAttachment :: part where
  "exampleAttachment =
     \<lparr> Header = [(''Content-Type'', str ''image/png''),
                 (''Content-Disposition'', str ''attachment; filename=a.png'')],
       Body = (str ''xx'', None) \<rparr>"

subsection \<open>Notions used in the statements\<close>

text \<open>
  \<open>msg\<close> takes the multipart branch of \<^verbatim>\<open>extractBodyAsMarkdown\<close>: its Content-Type
  parses to a \<^verbatim>\<open>multipart/\<close> type with a boundary, and the multipart reader over its body
  yields \<open>parts\<close> and then \<open>perr\<close>.
\<close>

definition isMultipart :: "lib \<Rightarrow> message \<Rightarrow> part list \<Rightarrow> error option \<Rightarrow> bool" where
  "isMultipart L msg parts perr =
     (let (mediatype, params, err) = ParseMediaType L (Get (Header msg) ''Content-Type'')
      in err = None
         \<and> HasPrefix mediatype (str ''multipart/'')
         \<and> param params (str ''boundary'') \<noteq> []
         \<and> NewReader L (Body msg) (param params (str ''boundary'')) = (parts, perr))"

text \<open>
  A part that the scan passes without returning: an attachment, or a \<^verbatim>\<open>text/html\<close> part
  whose decoding gives no error.
\<close>

definition passed :: "lib \<Rightarrow> part \<Rightarrow> bool" where
  "passed L p =
     (isAttachment p
      \<or> (partType L p = str ''text/html'' \<and> (case decodePart L p of Inl e \<Rightarrow> False | Inr b \<Rightarrow> True)))"

text \<open>The parts of a message that are no attachments, in their order.\<close>

definition nonAttachments :: "part list \<Rightarrow> part list" where
  "nonAttachments parts = filter (\<lambda>p. \<not> isAttachment p) parts"

text \<open>The two documents of the examples.\<close>

definition exampleDocs :: "(gostring \<times> node) list" where
  "exampleDocs =
     [(str ''<p>A</p>'', document [elem ''p'' [textNode ''A'']]),
      (str ''<p>B</p>'', document [elem ''p'' [textNode ''B'']])]"

section \<open>Properties of quote folding\<close>

subsection \<open>Splitting into lines and trimming\<close>

lemma Split_Nil: "Split [] [c] = [[]]"
  by (subst Split.simps) simp

lemma Split_Cons:
  "Split (d # ds) [c] =
     (if d = c then [] # Split ds [c]
      else (case Split ds [c] of [] \<Rightarrow> [[d]] | x # xs \<Rightarrow> (d # x) # xs))"
  by (subst Split.simps) (simp split: list.split)

lemma Split_not_Nil: "Split s [c] \<noteq> []"
  by (induction s) (auto simp: Split_Nil Split_Cons split: list.splits)

lemma set_Split: "l \<in> set (Split s [c]) \<Longrightarrow> set l \<subseteq> set s"
proof (induction s arbitrary: l)
  case Nil
  then show ?case by (simp add: Split_Nil)
next
  case (Cons d ds)
  show ?case
  proof (cases "d = c")
    case True
    with Cons show ?thesis by (auto simp: Split_Cons)
  next
    case False
    obtain x xs where sp: "Split ds [c] = x # xs"
      using Split_not_Nil [of ds c] by (cases "Split ds [c]") auto
    with False Cons.prems have "l = d # x \<or> l \<in> set xs"
      by (simp add: Split_Cons)
    then show ?thesis
      using Cons.IH sp by fastforce
  qed
qed

lemma TrimSpace_Nil_iff: "TrimSpace s = [] \<longleftrightarrow> (\<forall>r \<in> set s. isSpace r)"
proof
  assume e: "TrimSpace s = []"
  have "dropWhile isSpace s = []"
  proof (rule ccontr)
    assume n: "dropWhile isSpace s \<noteq> []"
    then have "\<not> isSpace (hd (dropWhile isSpace s))"
      by (rule hd_dropWhile)
    moreover from e have "dropWhile isSpace (rev (dropWhile isSpace s)) = []"
      by (simp add: TrimSpace_def TrimRightFunc_def TrimLeftFunc_def)
    then have "\<forall>r \<in> set (rev (dropWhile isSpace s)). isSpace r"
      unfolding dropWhile_eq_Nil_conv .
    ultimately show False using n by (metis hd_in_set set_rev)
  qed
  then show "\<forall>r \<in> set s. isSpace r"
    unfolding dropWhile_eq_Nil_conv .
next
  assume "\<forall>r \<in> set s. isSpace r"
  then have h: "dropWhile isSpace s = []"
    unfolding dropWhile_eq_Nil_conv .
  show "TrimSpace s = []"
    by (simp only: TrimSpace_def TrimRightFunc_def TrimLeftFunc_def h rev.simps dropWhile.simps)
qed

lemma line_blank: "TrimSpace md = [] \<Longrightarrow> l \<in> set (Split md [c]) \<Longrightarrow> TrimSpace l = []"
  using set_Split [of l md c] by (auto simp: TrimSpace_Nil_iff)

lemma findSplit_None:
  "(\<And>i. k \<le> i \<Longrightarrow> i < length lines \<Longrightarrow> TrimSpace (lines ! i) \<noteq> [] \<Longrightarrow>
      \<not> isQuoteBlock lines i \<and> \<not> matchesAny (TrimSpace (lines ! i)))
   \<Longrightarrow> findSplit lines k = None"
proof (induction lines k rule: findSplit.induct)
  case (1 lines i)
  show ?case
  proof (cases "i \<ge> length lines")
    case True
    then show ?thesis by (subst findSplit.simps) simp
  next
    case False
    have next_None: "findSplit lines (i + 1) = None"
    proof (cases "TrimSpace (lines ! i) = []")
      case True
      show ?thesis
        by (rule "1.IH"(1) [OF False True]) (use "1.prems" in auto)
    next
      case nb: False
      with "1.prems" [of i] False have q: "\<not> isQuoteBlock lines i" and m: "\<not> matchesAny (TrimSpace (lines ! i))"
        by auto
      show ?thesis
        by (rule "1.IH"(2) [OF False nb q m]) (use "1.prems" in auto)
    qed
    show ?thesis
      using False next_None "1.prems" [of i]
      by (subst findSplit.simps) auto
  qed
qed

lemma findSplit_Some_before:
  "k \<le> i \<Longrightarrow> i < length lines \<Longrightarrow> TrimSpace (lines ! i) \<noteq> [] \<Longrightarrow> isQuoteBlock lines i
   \<Longrightarrow> \<exists>s. findSplit lines k = Some s \<and> k \<le> s \<and> s \<le> i"
proof (induction lines k rule: findSplit.induct)
  case (1 lines k)
  from "1.prems" have kl: "\<not> k \<ge> length lines" by simp
  show ?case
  proof (cases "k = i")
    case True
    with "1.prems" kl show ?thesis
      by (subst findSplit.simps) simp
  next
    case False
    with "1.prems" have lt: "k + 1 \<le> i" by simp
    show ?thesis
    proof (cases "TrimSpace (lines ! k) = []")
      case True
      from "1.IH"(1) [OF kl True lt "1.prems"(2,3,4)]
      obtain s where "findSplit lines (k + 1) = Some s" "k + 1 \<le> s" "s \<le> i" by blast
      with kl True show ?thesis
        by (subst findSplit.simps) simp
    next
      case nb: False
      show ?thesis
      proof (cases "isQuoteBlock lines k \<or> matchesAny (TrimSpace (lines ! k))")
        case True
        with kl nb "1.prems" show ?thesis
          by (subst findSplit.simps) auto
      next
        case False
        then have q: "\<not> isQuoteBlock lines k" and m: "\<not> matchesAny (TrimSpace (lines ! k))" by auto
        from "1.IH"(2) [OF kl nb q m lt "1.prems"(2,3,4)]
        obtain s where "findSplit lines (k + 1) = Some s" "k + 1 \<le> s" "s \<le> i" by blast
        with kl nb q m show ?thesis
          by (subst findSplit.simps) simp
      qed
    qed
  qed
qed

lemma HasPrefix_nonblank: "HasPrefix t (str ''>'') \<Longrightarrow> t \<noteq> []"
  by (auto simp: HasPrefix_def str_def)

lemma three_quotes_isQuoteBlock:
  assumes "i + 2 < length lines"
    and "HasPrefix (TrimSpace (lines ! i)) (str ''>'')"
    and "HasPrefix (TrimSpace (lines ! (i + 1))) (str ''>'')"
    and "HasPrefix (TrimSpace (lines ! (i + 2))) (str ''>'')"
  shows "isQuoteBlock lines i"
proof -
  from assms(1) have "drop i lines = lines ! i # drop (Suc i) lines"
    and "drop (Suc i) lines = lines ! (Suc i) # drop (Suc (Suc i)) lines"
    and "drop (Suc (Suc i)) lines = lines ! (Suc (Suc i)) # drop (Suc (Suc (Suc i))) lines"
    by (simp_all add: Cons_nth_drop_Suc)
  then have "drop i lines = lines ! i # lines ! (i + 1) # lines ! (i + 2) # drop (i + 3) lines"
    by (simp add: numeral_3_eq_3)
  moreover have "quoteRun ls (Suc (Suc (Suc 0))) = 3" for ls
    by (cases ls) simp_all
  ultimately show ?thesis
    using assms by (simp add: isQuoteBlock_def)
qed

lemma findSplit_Some_props:
  "findSplit lines k = Some s \<Longrightarrow>
     k \<le> s \<and> s < length lines \<and>
     (\<forall>j. k \<le> j \<and> j < s \<and> TrimSpace (lines ! j) \<noteq> [] \<longrightarrow> \<not> isQuoteBlock lines j)"
proof (induction lines k rule: findSplit.induct)
  case (1 lines k)
  from "1.prems" have kl: "\<not> k \<ge> length lines"
    by (subst (asm) findSplit.simps) (auto split: if_splits)
  show ?case
  proof (cases "TrimSpace (lines ! k) = []")
    case True
    with kl "1.prems" have "findSplit lines (k + 1) = Some s"
      by (subst (asm) findSplit.simps) simp
    from "1.IH"(1) [OF kl True this] True show ?thesis
      by (auto simp: le_Suc_eq Suc_le_eq elim: le_neq_trans)
  next
    case nb: False
    show ?thesis
    proof (cases "isQuoteBlock lines k \<or> matchesAny (TrimSpace (lines ! k))")
      case True
      with kl nb "1.prems" have "s = k"
        by (subst (asm) findSplit.simps) (auto split: if_splits)
      with kl show ?thesis by auto
    next
      case False
      then have q: "\<not> isQuoteBlock lines k" and m: "\<not> matchesAny (TrimSpace (lines ! k))" by auto
      with kl nb "1.prems" have "findSplit lines (k + 1) = Some s"
        by (subst (asm) findSplit.simps) simp
      from "1.IH"(2) [OF kl nb q m this] q show ?thesis
        by (auto simp: le_Suc_eq Suc_le_eq elim: le_neq_trans)
    qed
  qed
qed

lemma Split_no_sep_in_line: "l \<in> set (Split s [c]) \<Longrightarrow> c \<notin> set l"
proof (induction s arbitrary: l)
  case Nil
  then show ?case by (simp add: Split_Nil)
next
  case (Cons d ds)
  show ?case
  proof (cases "d = c")
    case True
    with Cons show ?thesis by (auto simp: Split_Cons)
  next
    case False
    obtain x xs where sp: "Split ds [c] = x # xs"
      using Split_not_Nil [of ds c] by (cases "Split ds [c]") auto
    with False Cons.prems have "l = d # x \<or> l \<in> set xs"
      by (simp add: Split_Cons)
    then show ?thesis
      using Cons.IH [of x] Cons.IH [of l] sp False by auto
  qed
qed

lemma Split_line_then_sep: "c \<notin> set x \<Longrightarrow> Split (x @ c # r) [c] = x # Split r [c]"
  by (induction x) (auto simp: Split_Cons)

lemma Split_line: "c \<notin> set x \<Longrightarrow> Split x [c] = [x]"
  by (induction x) (auto simp: Split_Cons Split_Nil)

lemma Split_Join: "ls \<noteq> [] \<Longrightarrow> \<forall>l \<in> set ls. c \<notin> set l \<Longrightarrow> Split (Join ls [c]) [c] = ls"
  by (induction ls "[c]" rule: Join.induct) (auto simp: Split_line Split_line_then_sep)

lemma Join_snoc: "Join (ls @ [l]) sep = (if ls = [] then l else Join ls sep @ sep @ l)"
  by (induction ls sep rule: Join.induct) auto

lemma TrimRight_snoc_sep: "TrimRight (s @ [c]) [c] = TrimRight s [c]"
  by (simp add: TrimRight_def TrimRightFunc_def)

lemma TrimRight_line: "c \<notin> set l \<Longrightarrow> l \<noteq> [] \<Longrightarrow> TrimRight (s @ l) [c] = s @ l"
  by (cases l rule: rev_cases) (auto simp: TrimRight_def TrimRightFunc_def)

lemma TrimRight_Nil: "TrimRight [] cs = []"
  by (simp add: TrimRight_def TrimRightFunc_def)

lemma TrimRight_Join:
  "\<forall>l \<in> set ls. c \<notin> set l \<Longrightarrow> TrimRight (Join ls [c]) [c] = Join (dropEmptyTail ls) [c]"
proof (induction ls rule: rev_induct)
  case Nil
  then show ?case by (simp add: TrimRight_Nil dropEmptyTail_def)
next
  case (snoc l ls)
  show ?case
  proof (cases "l = []")
    case True
    with snoc show ?thesis
      using TrimRight_snoc_sep [of "Join ls [c]" c]
      by (auto simp: Join_snoc dropEmptyTail_def TrimRight_Nil)
  next
    case False
    with snoc.prems have "TrimRight (Join (ls @ [l]) [c]) [c] = Join (ls @ [l]) [c]"
      using TrimRight_line [of c l "Join ls [c] @ [c]"] TrimRight_line [of c l "[]"]
      by (auto simp: Join_snoc)
    with False show ?thesis
      by (simp add: dropEmptyTail_def)
  qed
qed

lemma dropEmptyTail_take: "\<exists>k \<le> length ls. dropEmptyTail ls = take k ls"
proof -
  have "dropEmptyTail ls = take (length ls - length (takeWhile (\<lambda>l. l = []) (rev ls))) ls"
    by (simp add: dropEmptyTail_def dropWhile_eq_drop rev_drop)
  then show ?thesis
    by (metis diff_le_self)
qed

lemma quoteRun_ge: "c \<le> quoteRun ls c"
  by (induction ls c rule: quoteRun.induct) auto

lemma quoteRun_cut: "quoteRun (xs @ [[]]) c \<le> quoteRun (xs @ ys) c"
proof (induction xs arbitrary: c)
  case Nil
  have "TrimSpace [] = []" by (simp add: TrimSpace_Nil_iff)
  moreover have "\<not> HasPrefix [] (str ''>'')" by (simp add: HasPrefix_def str_def)
  ultimately show ?case
    using quoteRun_ge [of c ys] by simp
next
  case (Cons x xs)
  then show ?case by simp
qed

lemma no_run_after_cut:
  assumes "k \<le> length lines"
    and "\<forall>j < k. TrimSpace (lines ! j) \<noteq> [] \<longrightarrow> \<not> isQuoteBlock lines j"
  shows "quoteRun (drop j (take k lines @ [[]])) 0 < 3"
proof (induction "Suc k - j" arbitrary: j)
  case 0
  then show ?case using assms(1) by simp
next
  case (Suc n)
  let ?L = "take k lines @ [[]]"
  have blank: "TrimSpace [] = []" by (simp add: TrimSpace_Nil_iff)
  have noq: "\<not> HasPrefix [] (str ''>'')" by (simp add: HasPrefix_def str_def)
  from Suc.hyps(2) have jk: "j \<le> k" by simp
  from Suc.hyps(2) have n: "n = Suc k - Suc j" by simp
  show ?case
  proof (cases "j = k")
    case True
    with assms(1) have "drop j ?L = [[]]" by simp
    with blank noq show ?thesis by simp
  next
    case False
    with jk have lt: "j < k" by simp
    from lt assms(1) have "j < length ?L" and "?L ! j = lines ! j"
      by (simp_all add: nth_append)
    then have d: "drop j ?L = lines ! j # drop (Suc j) ?L"
      using Cons_nth_drop_Suc [of j ?L] by simp
    show ?thesis
    proof (cases "TrimSpace (lines ! j) = []")
      case True
      then have "\<not> HasPrefix (TrimSpace (lines ! j)) (str ''>'')"
        using noq by simp
      with True d Suc.hyps(1) [OF n] show ?thesis by simp
    next
      case nb: False
      with assms(2) lt have "\<not> isQuoteBlock lines j" by simp
      with lt assms(1) have "quoteRun (drop j lines) 0 < 3"
        by (simp add: isQuoteBlock_def)
      moreover from lt assms(1) have "drop j lines = drop j (take k lines) @ drop k lines"
        by (metis append_take_drop_id drop_append less_imp_le_nat length_take min.absorb2 diff_is_0_eq drop0)
      moreover from lt assms(1) have "drop j ?L = drop j (take k lines) @ [[]]"
        by simp
      ultimately show ?thesis
        using quoteRun_cut [of "drop j (take k lines)" 0 "drop k lines"] by simp
    qed
  qed
qed

subsection \<open>Runs of quoted lines\<close>

lemma isBlank_not_isQuoted: "isBlank l \<Longrightarrow> \<not> isQuoted l"
  by (simp add: isBlank_def isQuoted_def HasPrefix_def str_def)

lemma quoteRun_done: "3 \<le> c \<Longrightarrow> quoteRun ls c = c"
  by (cases ls) simp_all

lemma quoteRun_quoted: "isQuoted l \<Longrightarrow> c < 3 \<Longrightarrow> quoteRun (l # ls) c = quoteRun ls (Suc c)"
  by (simp add: isQuoted_def)

lemma quoteRun_blank: "isBlank l \<Longrightarrow> quoteRun (l # ls) c = quoteRun ls c"
  using isBlank_not_isQuoted [of l] quoteRun_done [of c ls]
  by (cases "c < 3") (simp_all add: isQuoted_def isBlank_def)

lemma quoteRun_blanks:
  "k \<le> length ls \<Longrightarrow> (\<forall>j < k. isBlank (ls ! j)) \<Longrightarrow> quoteRun ls c = quoteRun (drop k ls) c"
proof (induction k arbitrary: ls)
  case 0
  then show ?case by simp
next
  case (Suc k)
  then obtain l rest where ls: "ls = l # rest" by (cases ls) auto
  with Suc.prems have "isBlank l" and "k \<le> length rest" and "\<forall>j < k. isBlank (rest ! j)"
    by auto
  with Suc.IH [of rest] ls show ?case
    by (simp add: quoteRun_blank del: quoteRun.simps)
qed

lemma quoteRun_next:
  "c < 3 \<Longrightarrow> c < quoteRun ls c \<Longrightarrow>
     \<exists>k < length ls. (\<forall>j < k. isBlank (ls ! j)) \<and> isQuoted (ls ! k)
        \<and> quoteRun ls c = quoteRun (drop (Suc k) ls) (Suc c)"
proof (induction ls)
  case Nil
  then show ?case by simp
next
  case (Cons l ls)
  show ?case
  proof (cases "isQuoted l")
    case True
    with Cons.prems have "quoteRun (l # ls) c = quoteRun (drop (Suc 0) (l # ls)) (Suc c)"
      by (simp add: quoteRun_quoted del: quoteRun.simps)
    with True show ?thesis by (intro exI [of _ 0]) simp
  next
    case nq: False
    show ?thesis
    proof (cases "isBlank l")
      case True
      with Cons.prems have "c < quoteRun ls c" by (simp add: quoteRun_blank del: quoteRun.simps)
      from Cons.IH [OF Cons.prems(1) this]
      obtain k where k: "k < length ls" "\<forall>j < k. isBlank (ls ! j)" "isQuoted (ls ! k)"
        "quoteRun ls c = quoteRun (drop (Suc k) ls) (Suc c)" by blast
      have "\<forall>j < Suc k. isBlank ((l # ls) ! j)"
        using True k(2) by (auto simp: nth_Cons split: nat.splits)
      with k True show ?thesis
        by (intro exI [of _ "Suc k"]) (simp add: quoteRun_blank del: quoteRun.simps)
    next
      case False
      with nq Cons.prems show ?thesis
        by (simp add: isQuoted_def isBlank_def)
    qed
  qed
qed

lemma quoteRunAt_isQuoteBlock:
  assumes "quoteRunAt lines a"
  shows "isQuoteBlock lines a"
proof -
  from assms obtain b c where o: "a < b" "b < c" "c < length lines"
    and q: "isQuoted (lines ! a)" "isQuoted (lines ! b)" "isQuoted (lines ! c)"
    and bl: "\<forall>j. a < j \<and> j < c \<and> j \<noteq> b \<longrightarrow> isBlank (lines ! j)"
    by (auto simp: quoteRunAt_def)
  have step: "quoteRun (drop i lines) n = quoteRun (drop (Suc i) lines) (Suc n)"
    if "i < length lines" "isQuoted (lines ! i)" "n < 3" for i n
    using that by (simp add: quoteRun_quoted del: quoteRun.simps flip: Cons_nth_drop_Suc)
  have skip: "quoteRun (drop i lines) n = quoteRun (drop k lines) n"
    if "i \<le> k" "k \<le> length lines" "\<forall>j. i \<le> j \<and> j < k \<longrightarrow> isBlank (lines ! j)" for i k n
  proof -
    have "quoteRun (drop i lines) n = quoteRun (drop (k - i) (drop i lines)) n"
      using that by (intro quoteRun_blanks) auto
    with that show ?thesis by simp
  qed
  have "quoteRun (drop a lines) 0 = quoteRun (drop (Suc a) lines) 1"
    using step [of a 0] o q by simp
  also have "\<dots> = quoteRun (drop b lines) 1"
    using o bl by (intro skip) auto
  also have "\<dots> = quoteRun (drop (Suc b) lines) 2"
    using step [of b 1] o q by (simp add: numeral_2_eq_2)
  also have "\<dots> = quoteRun (drop c lines) 2"
    using o bl by (intro skip) auto
  also have "\<dots> = quoteRun (drop (Suc c) lines) 3"
    using step [of c 2] o q by (simp add: numeral_3_eq_3 numeral_2_eq_2)
  also have "\<dots> = 3"
    by (simp add: quoteRun_done)
  finally show ?thesis
    using o by (simp add: isQuoteBlock_def)
qed

lemma isQuoteBlock_quoteRunAt:
  assumes "isQuoteBlock lines i"
  shows "\<exists>a \<ge> i. quoteRunAt lines a \<and> (\<forall>j. i \<le> j \<and> j < a \<longrightarrow> isBlank (lines ! j))"
proof -
  from assms have il: "i < length lines" and r: "3 \<le> quoteRun (drop i lines) 0"
    by (auto simp: isQuoteBlock_def split: if_splits)
  have nxt: "\<exists>k \<ge> p. k < length lines \<and> (\<forall>j. p \<le> j \<and> j < k \<longrightarrow> isBlank (lines ! j)) \<and> isQuoted (lines ! k)
        \<and> quoteRun (drop p lines) n = quoteRun (drop (Suc k) lines) (Suc n)"
    if "n < 3" "n < quoteRun (drop p lines) n" for p n
  proof -
    from quoteRun_next [OF that]
    obtain k where k: "k < length (drop p lines)" "\<forall>j < k. isBlank (drop p lines ! j)"
      "isQuoted (drop p lines ! k)"
      "quoteRun (drop p lines) n = quoteRun (drop (Suc k) (drop p lines)) (Suc n)" by blast
    then have pk: "p + k < length lines" by simp
    have "\<forall>j. p \<le> j \<and> j < p + k \<longrightarrow> isBlank (lines ! j)"
    proof (intro allI impI)
      fix j assume j: "p \<le> j \<and> j < p + k"
      then have "j - p < k" by arith
      with k(2) have "isBlank (drop p lines ! (j - p))" by blast
      with j pk show "isBlank (lines ! j)" by simp
    qed
    moreover from k(3) pk have "isQuoted (lines ! (p + k))" by simp
    moreover from k(4) have "quoteRun (drop p lines) n = quoteRun (drop (Suc (p + k)) lines) (Suc n)"
      by (simp add: add.commute)
    ultimately show ?thesis
      using pk by (intro exI [of _ "p + k"]) simp
  qed
  from r nxt [of 0 i] obtain a where a: "i \<le> a" "a < length lines"
    "\<forall>j. i \<le> j \<and> j < a \<longrightarrow> isBlank (lines ! j)" "isQuoted (lines ! a)"
    "quoteRun (drop i lines) 0 = quoteRun (drop (Suc a) lines) 1"
    by auto
  with r nxt [of 1 "Suc a"] obtain b where b: "Suc a \<le> b" "b < length lines"
    "\<forall>j. Suc a \<le> j \<and> j < b \<longrightarrow> isBlank (lines ! j)" "isQuoted (lines ! b)"
    "quoteRun (drop (Suc a) lines) 1 = quoteRun (drop (Suc b) lines) 2"
    by (auto simp: numeral_2_eq_2)
  with a r nxt [of 2 "Suc b"] obtain c where c: "Suc b \<le> c" "c < length lines"
    "\<forall>j. Suc b \<le> j \<and> j < c \<longrightarrow> isBlank (lines ! j)" "isQuoted (lines ! c)"
    by (auto simp: numeral_3_eq_3 numeral_2_eq_2)
  have "\<forall>j. a < j \<and> j < c \<and> j \<noteq> b \<longrightarrow> isBlank (lines ! j)"
  proof (intro allI impI)
    fix j assume j: "a < j \<and> j < c \<and> j \<noteq> b"
    then consider "Suc a \<le> j \<and> j < b" | "Suc b \<le> j \<and> j < c" by arith
    then show "isBlank (lines ! j)"
      using b(3) c(3) by cases blast+
  qed
  with a b c have "quoteRunAt lines a"
    unfolding quoteRunAt_def by (intro exI [of _ b] exI [of _ c]) simp
  with a show ?thesis by blast
qed

subsection \<open>The result in terms of the split index\<close>

lemma hideQuotedPart_splitPoint:
  "hideQuotedPart md removeQuotes =
     (case splitPoint md of
        None \<Rightarrow> md
      | Some s \<Rightarrow>
          if TrimSpace (visiblePart md s) = [] then details (quotedPart md s)
          else if removeQuotes then visiblePart md s @ [NL]
          else visiblePart md s @ [NL, NL] @ details (quotedPart md s))"
  by (simp add: hideQuotedPart_def splitPoint_def visiblePart_def quotedPart_def Let_def
           split: option.splits)

lemma dropEmptyTail_take_empty:
  "\<exists>k \<le> length ls. dropEmptyTail ls = take k ls \<and> (\<forall>j. k \<le> j \<and> j < length ls \<longrightarrow> ls ! j = [])"
proof -
  let ?t = "rev (takeWhile (\<lambda>l. l = []) (rev ls))"
  have split: "ls = dropEmptyTail ls @ ?t"
  proof -
    have "rev (takeWhile (\<lambda>l. l = []) (rev ls) @ dropWhile (\<lambda>l. l = []) (rev ls)) = rev (rev ls)"
      by (simp only: takeWhile_dropWhile_id)
    then have "rev (dropWhile (\<lambda>l. l = []) (rev ls)) @ ?t = ls"
      by (simp only: rev_append rev_rev_ident)
    then show ?thesis
      by (simp only: dropEmptyTail_def)
  qed
  let ?k = "length (dropEmptyTail ls)"
  from split have kl: "?k \<le> length ls"
    by (metis length_append le_add1)
  from split have tk: "dropEmptyTail ls = take ?k ls"
    by (metis append_eq_conv_conj)
  have "ls ! j = []" if "?k \<le> j" "j < length ls" for j
  proof -
    from split that have "ls ! j = ?t ! (j - ?k)" and "j - ?k < length ?t"
      by (metis nth_append not_less, metis length_append less_diff_conv2 add.commute)
    then have "ls ! j \<in> set ?t" by (metis nth_mem)
    then show ?thesis by (auto dest: set_takeWhileD)
  qed
  with kl tk show ?thesis by blast
qed

subsection \<open>The claims about \<^verbatim>\<open>hideQuotedPart\<close>\<close>

text \<open>
  C10. When the lines of the input hold no run of quoted lines (three lines that start
  with \<open>>\<close> after trimming, with nothing but blank lines between them) and no trimmed
  line matches one of the eight patterns, \<^verbatim>\<open>hideQuotedPart\<close> returns its input
  unchanged, whatever \<^verbatim>\<open>removeQuotes\<close> is.
\<close>

theorem hideQuotedPart_unchanged_without_match:
  assumes "\<forall>a. \<not> quoteRunAt (Split md [NL]) a"
    and "\<forall>i < length (Split md [NL]). \<not> matchesAny (TrimSpace (Split md [NL] ! i))"
  shows "hideQuotedPart md removeQuotes = md"
proof -
  have "\<not> isQuoteBlock (Split md [NL]) i" for i
    using isQuoteBlock_quoteRunAt [of "Split md [NL]" i] assms(1) by blast
  with assms(2) have "findSplit (Split md [NL]) 0 = None"
    by (intro findSplit_None) auto
  then show ?thesis
    by (simp add: hideQuotedPart_def)
qed

text \<open>
  The text \<open>hello / > a / > b / world\<close> has two quoted lines only and no line that
  matches a pattern: it is returned as it is.
\<close>

theorem hideQuotedPart_unchanged_without_match_witness:
  "hideQuotedPart (str ''hello\<newline>> a\<newline>> b\<newline>world'') True = str ''hello\<newline>> a\<newline>> b\<newline>world''
   \<and> hideQuotedPart (str ''hello\<newline>> a\<newline>> b\<newline>world'') False = str ''hello\<newline>> a\<newline>> b\<newline>world''"
proof -
  let ?md = "str ''hello\<newline>> a\<newline>> b\<newline>world''"
  have l: "Split ?md [NL] = [str ''hello'', str ''> a'', str ''> b'', str ''world'']"
    by code_simp
  have q: "\<not> isQuoted (str ''hello'')" "\<not> isQuoted (str ''world'')"
    by code_simp+
  have r: "\<not> quoteRunAt (Split ?md [NL]) a" for a
  proof
    assume "quoteRunAt (Split ?md [NL]) a"
    then obtain b c where o: "a < b" "b < c" "c < 4"
      and qs: "isQuoted ([str ''hello'', str ''> a'', str ''> b'', str ''world''] ! a)"
              "isQuoted ([str ''hello'', str ''> a'', str ''> b'', str ''world''] ! c)"
      unfolding quoteRunAt_def l by auto
    from o have "a = 0 \<or> c = 3" by arith
    with qs q o show False
      by (auto simp: numeral_3_eq_3)
  qed
  have m: "\<not> matchesAny (TrimSpace (str ''hello''))" "\<not> matchesAny (TrimSpace (str ''> a''))"
    "\<not> matchesAny (TrimSpace (str ''> b''))" "\<not> matchesAny (TrimSpace (str ''world''))"
    by code_simp+
  have h: "\<forall>i < length (Split ?md [NL]). \<not> matchesAny (TrimSpace (Split ?md [NL] ! i))"
    unfolding l using m by (simp add: less_Suc_eq numeral_Bit0 nth_Cons')
  from r have r': "\<forall>a. \<not> quoteRunAt (Split ?md [NL]) a" by blast
  show ?thesis
    using hideQuotedPart_unchanged_without_match [OF r' h, of True] hideQuotedPart_unchanged_without_match [OF r' h, of False] by simp
qed

text \<open>
  C7. When three consecutive lines \<open>i\<close>, \<open>i + 1\<close>, \<open>i + 2\<close> of the input each start with
  \<open>>\<close> after trimming, \<^verbatim>\<open>hideQuotedPart\<close> finds a split index \<open>s\<close> that is at most \<open>i\<close>,
  and what it returns is the input folded at \<open>s\<close>: the disclosure block around the quoted
  part when the visible part is blank, else the visible part, followed by a newline or
  by a blank line and the disclosure block. It holds for every such \<open>i\<close>, so for the
  first line of the first run.
\<close>

theorem hideQuotedPart_splits_at_quote_run:
  assumes "i + 2 < length (Split md [NL])"
    and "\<forall>j \<in> {i, i + 1, i + 2}. HasPrefix (TrimSpace (Split md [NL] ! j)) (str ''>'')"
  shows "\<exists>s \<le> i. splitPoint md = Some s
           \<and> hideQuotedPart md removeQuotes =
               (if TrimSpace (visiblePart md s) = [] then details (quotedPart md s)
                else if removeQuotes then visiblePart md s @ [NL]
                else visiblePart md s @ [NL, NL] @ details (quotedPart md s))"
proof -
  let ?lines = "Split md [NL]"
  from assms(2) have "HasPrefix (TrimSpace (?lines ! i)) (str ''>'')"
    by simp
  then have nb: "TrimSpace (?lines ! i) \<noteq> []"
    by (rule HasPrefix_nonblank)
  have "?lines ! i \<in> set ?lines"
    using assms(1) by simp
  with nb have "TrimSpace md \<noteq> []"
    using line_blank by blast
  moreover have "isQuoteBlock ?lines i"
    using assms by (intro three_quotes_isQuoteBlock) auto
  then obtain s where "findSplit ?lines 0 = Some s" "s \<le> i"
    using findSplit_Some_before [of 0 i ?lines] assms(1) nb by auto
  ultimately have "splitPoint md = Some s" and "s \<le> i"
    by (simp_all add: splitPoint_def)
  then show ?thesis
    using hideQuotedPart_splitPoint [of md removeQuotes] by auto
qed

text \<open>
  In \<open>hi / > a / > b / > c\<close> the run starts at line 1, the split index is 1, and the
  text is folded there.
\<close>

theorem hideQuotedPart_splits_at_quote_run_witness:
  "splitPoint (str ''hi\<newline>> a\<newline>> b\<newline>> c'') = Some 1
   \<and> hideQuotedPart (str ''hi\<newline>> a\<newline>> b\<newline>> c'') True = str ''hi\<newline>''
   \<and> hideQuotedPart (str ''hi\<newline>> a\<newline>> b\<newline>> c'') False
       = str ''hi\<newline>\<newline><details>\<newline><summary>Show quoted email</summary>\<newline>\<newline>> a\<newline>> b\<newline>> c\<newline>\<newline></details>''"
proof -
  let ?md = "str ''hi\<newline>> a\<newline>> b\<newline>> c''"
  have l: "Split ?md [NL] = [str ''hi'', str ''> a'', str ''> b'', str ''> c'']"
    by code_simp
  have p: "HasPrefix (TrimSpace (str ''> a'')) (str ''>'') \<and> HasPrefix (TrimSpace (str ''> b'')) (str ''>'')
      \<and> HasPrefix (TrimSpace (str ''> c'')) (str ''>'')"
    by code_simp
  have h1: "1 + 2 < length (Split ?md [NL])"
    by (simp add: l)
  have h2: "\<forall>j \<in> {1, 1 + 1, 1 + 2}. HasPrefix (TrimSpace (Split ?md [NL] ! j)) (str ''>'')"
    by (simp add: l p)
  have n0: "splitPoint ?md \<noteq> Some 0"
    by code_simp
  have v: "TrimSpace (visiblePart ?md 1) \<noteq> []" "visiblePart ?md 1 @ [NL] = str ''hi\<newline>''"
    "visiblePart ?md 1 @ [NL, NL] @ details (quotedPart ?md 1)
       = str ''hi\<newline>\<newline><details>\<newline><summary>Show quoted email</summary>\<newline>\<newline>> a\<newline>> b\<newline>> c\<newline>\<newline></details>''"
    by code_simp+
  from hideQuotedPart_splits_at_quote_run [OF h1 h2, of True] n0 have t: "splitPoint ?md = Some 1"
    "hideQuotedPart ?md True = (if TrimSpace (visiblePart ?md 1) = [] then details (quotedPart ?md 1)
                else if True then visiblePart ?md 1 @ [NL]
                else visiblePart ?md 1 @ [NL, NL] @ details (quotedPart ?md 1))"
    by (auto simp: le_Suc_eq)
  from hideQuotedPart_splits_at_quote_run [OF h1 h2, of False] n0 have f:
    "hideQuotedPart ?md False = (if TrimSpace (visiblePart ?md 1) = [] then details (quotedPart ?md 1)
                else if False then visiblePart ?md 1 @ [NL]
                else visiblePart ?md 1 @ [NL, NL] @ details (quotedPart ?md 1))"
    by (auto simp: le_Suc_eq)
  from t f v show ?thesis
    by simp
qed

text \<open>
  C3, as stated, fails. A text of quoted lines only has a blank visible part, and the
  result is the disclosure block around the quoted lines, whatever \<^verbatim>\<open>removeQuotes\<close>
  is; and a line that starts with \<open>>\<close> before the split index, outside any run of
  three, stays in the visible part.
\<close>

theorem hideQuotedPart_discard_leaves_quote_lines:
  "splitPoint (str ''> a\<newline>> b\<newline>> c'') = Some 0
   \<and> list_ex (\<lambda>l. HasPrefix (TrimSpace l) (str ''>''))
        (Split (hideQuotedPart (str ''> a\<newline>> b\<newline>> c'') True) [NL])
   \<and> splitPoint (str ''> a\<newline>hello\<newline>--\<newline>bye'') = Some 2
   \<and> list_ex (\<lambda>l. HasPrefix (TrimSpace l) (str ''>''))
        (Split (hideQuotedPart (str ''> a\<newline>hello\<newline>--\<newline>bye'') True) [NL])"
  by code_simp

text \<open>
  C3, amended. Let a split index \<open>s\<close> be found. When the visible part is blank, the result
  is the disclosure block around the quoted part, for both values of
  \<^verbatim>\<open>removeQuotes\<close>. When it is not blank, the result for \<^verbatim>\<open>removeQuotes = true\<close> is the
  visible part and a newline; its lines are the first \<open>k \<le> s\<close> lines of the input
  followed by one empty line, the lines from \<open>k\<close> to \<open>s\<close> being empty: no line from the
  split index on is left, every line before it that is not empty stays, and the result
  holds no run of quoted lines (no line of it starts a quote block).
\<close>

theorem hideQuotedPart_discard_keeps_lines_before_split:
  assumes "splitPoint md = Some s"
  shows "(TrimSpace (visiblePart md s) = [] \<longrightarrow>
            hideQuotedPart md True = details (quotedPart md s)
            \<and> hideQuotedPart md False = details (quotedPart md s))
         \<and> (TrimSpace (visiblePart md s) \<noteq> [] \<longrightarrow>
              hideQuotedPart md True = visiblePart md s @ [NL]
              \<and> (\<exists>k \<le> s. Split (hideQuotedPart md True) [NL] = take k (Split md [NL]) @ [[]]
                     \<and> (\<forall>j. k \<le> j \<and> j < s \<longrightarrow> Split md [NL] ! j = []))
              \<and> (\<forall>j. \<not> isQuoteBlock (Split (hideQuotedPart md True) [NL]) j)
              \<and> (\<forall>a. \<not> quoteRunAt (Split (hideQuotedPart md True) [NL]) a))"
proof (intro conjI impI)
  assume "TrimSpace (visiblePart md s) = []"
  with assms show "hideQuotedPart md True = details (quotedPart md s)"
    and "hideQuotedPart md False = details (quotedPart md s)"
    by (simp_all add: hideQuotedPart_splitPoint)
next
  assume vnb: "TrimSpace (visiblePart md s) \<noteq> []"
  let ?lines = "Split md [NL]"
  from assms have nb: "TrimSpace md \<noteq> []" and fs: "findSplit ?lines 0 = Some s"
    by (auto simp: splitPoint_def split: if_splits)
  from findSplit_Some_props [OF fs]
  have sl: "s < length ?lines"
    and early: "\<forall>j < s. TrimSpace (?lines ! j) \<noteq> [] \<longrightarrow> \<not> isQuoteBlock ?lines j"
    by auto
  show out: "hideQuotedPart md True = visiblePart md s @ [NL]"
    using assms vnb by (simp add: hideQuotedPart_splitPoint)
  have nosep: "\<forall>l \<in> set (take s ?lines). NL \<notin> set l"
    using Split_no_sep_in_line by (meson in_set_takeD)
  then have vj: "visiblePart md s = Join (dropEmptyTail (take s ?lines)) [NL]"
    unfolding visiblePart_def by (rule TrimRight_Join)
  obtain k where k: "k \<le> length (take s ?lines)" "dropEmptyTail (take s ?lines) = take k (take s ?lines)"
    "\<forall>j. k \<le> j \<and> j < length (take s ?lines) \<longrightarrow> take s ?lines ! j = []"
    using dropEmptyTail_take_empty by blast
  with vj have vis: "visiblePart md s = Join (take k ?lines) [NL]" and ks: "k \<le> s"
    using sl by (simp_all add: min_def)
  from k(3) sl have dropped: "\<forall>j. k \<le> j \<and> j < s \<longrightarrow> ?lines ! j = []"
    by simp
  have "take k ?lines \<noteq> []"
  proof
    assume "take k ?lines = []"
    then have "visiblePart md s = []"
      by (simp only: vis Join.simps)
    with vnb show False
      by (simp add: TrimSpace_Nil_iff)
  qed
  then have "visiblePart md s @ [NL] = Join (take k ?lines @ [[]]) [NL]"
    by (simp add: Join_snoc vis)
  moreover have "\<forall>l \<in> set (take k ?lines @ [[]]). NL \<notin> set l"
    using Split_no_sep_in_line by (auto dest: in_set_takeD)
  ultimately have sp: "Split (hideQuotedPart md True) [NL] = take k ?lines @ [[]]"
    using out by (simp add: Split_Join)
  with ks dropped
  show "\<exists>k \<le> s. Split (hideQuotedPart md True) [NL] = take k ?lines @ [[]]
           \<and> (\<forall>j. k \<le> j \<and> j < s \<longrightarrow> ?lines ! j = [])"
    by blast
  have nq: "\<not> isQuoteBlock (take k ?lines @ [[]]) j" for j
    using no_run_after_cut [of k ?lines j] early ks sl
    by (auto simp: isQuoteBlock_def)
  with sp show "\<forall>j. \<not> isQuoteBlock (Split (hideQuotedPart md True) [NL]) j"
    by simp
  from nq sp show "\<forall>a. \<not> quoteRunAt (Split (hideQuotedPart md True) [NL]) a"
    using quoteRunAt_isQuoteBlock by auto
qed

text \<open>
  In \<open>> a / hello / -- / bye\<close> the split index is 2, at the signature separator; the
  result keeps the two lines before it. In \<open>> a / > b / > c\<close> the visible part is empty
  and the result is the disclosure block for both values of \<^verbatim>\<open>removeQuotes\<close>.
\<close>

theorem hideQuotedPart_discard_keeps_lines_before_split_witness:
  "hideQuotedPart (str ''> a\<newline>hello\<newline>--\<newline>bye'') True = str ''> a\<newline>hello\<newline>''
   \<and> \<not> isQuoteBlock (Split (hideQuotedPart (str ''> a\<newline>hello\<newline>--\<newline>bye'') True) [NL]) 0
   \<and> hideQuotedPart (str ''> a\<newline>> b\<newline>> c'') True
       = str ''<details>\<newline><summary>Show quoted email</summary>\<newline>\<newline>> a\<newline>> b\<newline>> c\<newline>\<newline></details>''
   \<and> hideQuotedPart (str ''> a\<newline>> b\<newline>> c'') False
       = str ''<details>\<newline><summary>Show quoted email</summary>\<newline>\<newline>> a\<newline>> b\<newline>> c\<newline>\<newline></details>''"
proof -
  let ?md = "str ''> a\<newline>hello\<newline>--\<newline>bye''"
  let ?q = "str ''> a\<newline>> b\<newline>> c''"
  have s: "splitPoint ?md = Some 2"
    by code_simp
  have v: "visiblePart ?md 2 = str ''> a\<newline>hello''"
    by code_simp
  have n: "TrimSpace (visiblePart ?md 2) \<noteq> []"
    by code_simp
  have e: "str ''> a\<newline>hello'' @ [NL] = str ''> a\<newline>hello\<newline>''"
    by code_simp
  from hideQuotedPart_discard_keeps_lines_before_split [OF s] n
  have a: "hideQuotedPart ?md True = visiblePart ?md 2 @ [NL]"
    and b: "\<not> isQuoteBlock (Split (hideQuotedPart ?md True) [NL]) 0"
    by blast+
  from a have a': "hideQuotedPart ?md True = str ''> a\<newline>hello\<newline>''"
    by (simp only: v e)
  have s0: "splitPoint ?q = Some 0"
    by code_simp
  have bl: "TrimSpace (visiblePart ?q 0) = []"
    by code_simp
  have d: "details (quotedPart ?q 0)
     = str ''<details>\<newline><summary>Show quoted email</summary>\<newline>\<newline>> a\<newline>> b\<newline>> c\<newline>\<newline></details>''"
    by code_simp
  from hideQuotedPart_discard_keeps_lines_before_split [OF s0] bl
  have "hideQuotedPart ?q True = details (quotedPart ?q 0)"
    and "hideQuotedPart ?q False = details (quotedPart ?q 0)"
    by blast+
  with d a' b show ?thesis
    by simp
qed

section \<open>Properties of the renderer\<close>

subsection \<open>The stacks across a walk\<close>



lemma outerKept_WriteString: "outerKept st (WriteString st s)"
  by (simp add: outerKept_def WriteString_def)

lemma outerKept_ensure: "outerKept st (ensureTwoNewlines st)"
  by (simp add: outerKept_def ensureTwoNewlines_def WriteString_def)

lemma outerKept_itemPrefix: "outerKept st (snd (itemPrefix st))"
  by (auto simp: outerKept_def itemPrefix_def butlast_append)

lemma stacks_WriteString [simp]:
  "listStack (WriteString st s) = listStack st" "olCounters (WriteString st s) = olCounters st"
  by (simp_all add: WriteString_def)

lemma stacks_ensure [simp]:
  "listStack (ensureTwoNewlines st) = listStack st" "olCounters (ensureTwoNewlines st) = olCounters st"
  by (simp_all add: ensureTwoNewlines_def)




text \<open>
  While the innermost open list is not an ordered one (or no list is open), a walk leaves
  the whole counter stack as it found it.
\<close>

lemma innermostOrdered_simps [simp]:
  "innermostOrdered (WriteString st s) = innermostOrdered st"
  "innermostOrdered (ensureTwoNewlines st) = innermostOrdered st"
  by (simp_all add: innermostOrdered_def)





lemma walk_other_element:
  assumes "ToLower d \<notin> set (map str [''br'', ''p'', ''div'', ''h1'', ''h2'', ''h3'', ''h4'', ''h5'', ''h6'',
             ''strong'', ''b'', ''em'', ''i'', ''a'', ''ul'', ''ol'', ''li'', ''pre'', ''code'', ''img''])"
  shows "walk unescape pre (Node ElementNode d as cs) st = walkChildren unescape pre cs st"
  using assms by (simp add: walk.simps Let_def)

lemma walk_other_node:
  "ty \<noteq> TextNode \<Longrightarrow> ty \<noteq> ElementNode
   \<Longrightarrow> walk unescape pre (Node ty d as cs) st = walkChildren unescape pre cs st"
  by (simp add: walk.simps)

subsection \<open>Blank lines\<close>

lemma Contains_iff: "Contains s sub \<longleftrightarrow> (\<exists>a b. s = a @ sub @ b)"
proof (induction s)
  case Nil
  then show ?case by auto
next
  case (Cons r rs)
  show ?case
  proof
    assume "Contains (r # rs) sub"
    then consider "prefix sub (r # rs)" | "Contains rs sub" by auto
    then show "\<exists>a b. r # rs = a @ sub @ b"
    proof cases
      case 1
      then obtain b where "r # rs = sub @ b" by (auto simp: prefix_def)
      then have "r # rs = [] @ sub @ b" by simp
      then show ?thesis by blast
    next
      case 2
      with Cons.IH obtain a b where "rs = a @ sub @ b" by blast
      then have "r # rs = (r # a) @ sub @ b" by simp
      then show ?thesis by blast
    qed
  next
    assume "\<exists>a b. r # rs = a @ sub @ b"
    then obtain a b where e: "r # rs = a @ sub @ b" by blast
    show "Contains (r # rs) sub"
    proof (cases a)
      case Nil
      with e have "prefix sub (r # rs)" by (simp add: prefix_def)
      then show ?thesis by simp
    next
      case (Cons x a')
      with e have "rs = a' @ sub @ b" by simp
      with Cons.IH have "Contains rs sub" by blast
      then show ?thesis by simp
    qed
  qed
qed

lemma normalizeBlankLines_no_run: "\<not> Contains (normalizeBlankLines s) [NL, NL, NL]"
proof (induction s rule: normalizeBlankLines.induct)
  case (1 s)
  show ?case
  proof (cases "Contains s [NL, NL, NL]")
    case True
    with "1.IH" show ?thesis by (subst normalizeBlankLines.simps) simp
  next
    case False
    then show ?thesis by (subst normalizeBlankLines.simps) simp
  qed
qed

subsection \<open>The claims about \<^verbatim>\<open>htmlToPlain\<close>\<close>

text \<open>
  C5. Whenever \<^verbatim>\<open>htmlToPlain\<close> returns a text, whatever the parser and the unescaping
  are, the text has no three newlines in a row.
\<close>

theorem htmlToPlain_no_three_newlines:
  assumes "htmlToPlain parse unescape htmlSrc = Inr out"
  shows "\<not> (\<exists>a b. out = a @ [NL, NL, NL] @ b)"
proof -
  from assms obtain t where "out = normalizeBlankLines t"
    by (auto simp: htmlToPlain_def split: sum.splits)
  then show ?thesis
    using normalizeBlankLines_no_run [of t] by (simp add: Contains_iff)
qed

text \<open>
  The document of \<^verbatim>\<open><p>A</p><div></div><p>B</p>\<close>, one of the repository's test cases:
  the rendering is \<open>A\<close>, a blank line, \<open>B\<close>.
\<close>

theorem htmlToPlain_no_three_newlines_witness:
  "htmlToPlain (\<lambda>src. Inr (document [elem ''p'' [textNode ''A''], elem ''div'' [], elem ''p'' [textNode ''B'']]))
       (\<lambda>s. s) (str ''<p>A</p><div></div><p>B</p>'') = Inr (str ''A\<newline>\<newline>B'')
   \<and> \<not> (\<exists>a b. str ''A\<newline>\<newline>B'' = a @ [NL, NL, NL] @ b)"
proof -
  have e: "htmlToPlain (\<lambda>src. Inr (document [elem ''p'' [textNode ''A''], elem ''div'' [], elem ''p'' [textNode ''B'']]))
       (\<lambda>s. s) (str ''<p>A</p><div></div><p>B</p>'') = Inr (str ''A\<newline>\<newline>B'')"
    by code_simp
  from htmlToPlain_no_three_newlines [OF e] e show ?thesis by blast
qed

lemma walk_li_outside_list:
  assumes "ToLower d = str ''li''" and "listStack st = []"
  shows "walk unescape pre (Node ElementNode d as cs) st = Inl (Panic ''strings: negative Repeat count'')"
  using assms by (simp add: walk.simps Let_def itemPrefix_def Repeat_def str_def)

text \<open>
  C4. \<^verbatim>\<open>htmlToPlain\<close> does not return on every parseable input: when the parser yields a
  document whose body holds a \<^verbatim>\<open>li\<close> element outside any list, the list stack is empty
  at that element, the indent is \<^verbatim>\<open>strings.Repeat("  ", -1)\<close>, and the call panics.
\<close>

theorem htmlToPlain_panics_on_item_outside_list:
  assumes "parse htmlSrc = Inr (document [Node ElementNode (str ''li'') as cs])"
  shows "htmlToPlain parse unescape htmlSrc = Inl (Panic ''strings: negative Repeat count'')"
proof -
  let ?st = "\<lparr>buf = [], listStack = [], olCounters = []\<rparr>"
  have low: "ToLower (str ''li'') = str ''li''"
    by code_simp
  have li: "walk unescape False (Node ElementNode (str ''li'') as cs) ?st
              = Inl (Panic ''strings: negative Repeat count'')"
    by (rule walk_li_outside_list [OF low]) simp
  have other: "ToLower (str tag) \<notin> set (map str [''br'', ''p'', ''div'', ''h1'', ''h2'', ''h3'', ''h4'', ''h5'', ''h6'',
             ''strong'', ''b'', ''em'', ''i'', ''a'', ''ul'', ''ol'', ''li'', ''pre'', ''code'', ''img''])"
    if "tag \<in> {''html'', ''head'', ''body''}" for tag
    using that by (elim insertE emptyE; hypsubst) code_simp+
  have "walk unescape False (document [Node ElementNode (str ''li'') as cs]) ?st
          = Inl (Panic ''strings: negative Repeat count'')"
    by (simp add: document_def elem_def walk_other_node walk_other_element [OF other] li)
  with assms show ?thesis
    by (simp add: htmlToPlain_def)
qed

text \<open>The document of \<^verbatim>\<open><li>x</li>\<close>.\<close>

theorem htmlToPlain_panics_on_item_outside_list_witness:
  "htmlToPlain (\<lambda>src. Inr (document [Node ElementNode (str ''li'') [] [textNode ''x'']]))
      (\<lambda>s. s) (str ''<li>x</li>'') = Inl (Panic ''strings: negative Repeat count'')"
  by (rule htmlToPlain_panics_on_item_outside_list) simp



section \<open>Properties of the body selection\<close>

subsection \<open>Decoding a part\<close>

text \<open>
  C8. When the transfer decoding reads \<open>rawBytes\<close> without an error and the charset label
  of the Content-Type is neither empty nor \<open>utf-8\<close> nor \<open>us-ascii\<close>,
  \<^verbatim>\<open>readAndDecodePart\<close> returns bytes and no error; and when the label is unknown to the
  charset library or the conversion ends with an error, the bytes it returns are
  \<open>rawBytes\<close>, unconverted.
\<close>

theorem readAndDecodePart_charset_failure_returns_raw:
  assumes "transferDecoded L r cteHeader = (rawBytes, None)"
    and "charsetLabel L contentType \<noteq> []"
    and "charsetLabel L contentType \<noteq> str ''utf-8''"
    and "charsetLabel L contentType \<noteq> str ''us-ascii''"
  shows "(\<exists>b. readAndDecodePart L r contentType cteHeader = Inr b)
         \<and> ((\<exists>e. NewReaderLabel L (charsetLabel L contentType) rawBytes = Inl e)
              \<or> (\<exists>c e. NewReaderLabel L (charsetLabel L contentType) rawBytes = Inr (c, Some e))
             \<longrightarrow> readAndDecodePart L r contentType cteHeader = Inr rawBytes)"
  using assms
  by (auto simp: readAndDecodePart_def Let_def split: sum.splits option.splits prod.splits)

text \<open>The label \<open>latin9\<close> is unknown to the library of the examples: the bytes come back as read.\<close>

theorem readAndDecodePart_charset_failure_returns_raw_witness:
  "readAndDecodePart (exampleLib [] []) (str ''caf'', None) (str ''text/plain; charset=latin9'') []
     = Inr (str ''caf'')"
proof -
  let ?L = "exampleLib [] []"
  have td: "transferDecoded ?L (str ''caf'', None) [] = (str ''caf'', None)"
    by code_simp
  have l: "charsetLabel ?L (str ''text/plain; charset=latin9'') = str ''latin9''"
    by code_simp
  have n: "str ''latin9'' \<noteq> []" "str ''latin9'' \<noteq> str ''utf-8''" "str ''latin9'' \<noteq> str ''us-ascii''"
    by (simp_all add: str_def)
  have f: "NewReaderLabel ?L (str ''latin9'') (str ''caf'') = Inl (LibError ''charset: unsupported label'')"
    by (simp add: exampleLib_def)
  from readAndDecodePart_charset_failure_returns_raw [OF td, of "str ''text/plain; charset=latin9''"] l n f show ?thesis
    by auto
qed

subsection \<open>The scan of a multipart message\<close>

lemma extractBodyAsMarkdown_multipart:
  "isMultipart L msg parts perr \<Longrightarrow> extractBodyAsMarkdown L msg = scanParts L parts perr []"
  by (auto simp: isMultipart_def extractBodyAsMarkdown_def Let_def split: prod.splits)

lemma html_not_plain: "str ''text/html'' \<noteq> str ''text/plain''"
  by (simp add: str_def)

lemma scanParts_passed:
  assumes "list_all (passed L) pre"
  shows "\<exists>h. scanParts L (pre @ rest) perr firstHTML = scanParts L rest perr h"
  using assms
proof (induction pre arbitrary: firstHTML)
  case Nil
  then show ?case by auto
next
  case (Cons p pre)
  from Cons.prems have rest: "list_all (passed L) pre" and p: "passed L p"
    by simp_all
  show ?case
  proof (cases "isAttachment p")
    case True
    with Cons.IH [OF rest] show ?thesis by simp
  next
    case False
    with p obtain b where "partType L p = str ''text/html''" "decodePart L p = Inr b"
      by (auto simp: passed_def split: sum.splits)
    with False Cons.IH [OF rest, of b] html_not_plain show ?thesis by simp
  qed
qed

text \<open>The scan passes over the attachments.\<close>

lemma scanParts_nonAttachments:
  "scanParts L parts perr firstHTML = scanParts L (nonAttachments parts) perr firstHTML"
  by (induction parts arbitrary: firstHTML) (simp_all add: nonAttachments_def split: sum.splits)

lemma nonAttachments_member: "nonAttachments parts = xs \<Longrightarrow> p \<in> set xs \<Longrightarrow> \<not> isAttachment p"
  by (auto simp: nonAttachments_def)

text \<open>
  The \<^verbatim>\<open>default\<close> branch of the \<^verbatim>\<open>switch\<close> has no test of \<^verbatim>\<open>firstHTML\<close>: a part that is no
  attachment and whose media type is neither \<^verbatim>\<open>text/plain\<close> nor \<^verbatim>\<open>text/html\<close> ends the
  scan with \<open>no text part found\<close> whenever the scan reaches it, whatever the candidate is
  at that moment.
\<close>

lemma scanParts_fails_at_other_part:
  assumes "list_all (passed L) pre"
    and "\<not> isAttachment q"
    and "partType L q \<noteq> str ''text/plain''"
    and "partType L q \<noteq> str ''text/html''"
  shows "scanParts L (pre @ q # post) perr firstHTML = Inl NoTextPartFound"
proof -
  from scanParts_passed [OF assms(1)]
  obtain h where "scanParts L (pre @ q # post) perr firstHTML = scanParts L (q # post) perr h"
    by blast
  with assms(2-4) show ?thesis
    by simp
qed

text \<open>
  C1 is not what the code does, and not what the code says of itself. The comment above
  \<^verbatim>\<open>extractBodyAsMarkdown\<close> promises \<open>prefer text/plain, else transform text/html\<close>, the
  comment at the loop \<open>Collect first text/plain, else first text/html\<close>, the comment after
  the loop \<open>If we saw HTML but no plain text, convert HTML\<close>, and the error says
  \<open>no text part found\<close>. The message here has a \<^verbatim>\<open>text/html\<close> part, which is no attachment,
  decodes to \<^verbatim>\<open><p>A</p>\<close> and is kept in \<^verbatim>\<open>firstHTML\<close> (its rendering is \<open>A\<close>), then an
  inline \<^verbatim>\<open>image/png\<close> part, and no \<^verbatim>\<open>text/plain\<close> part: the result is the error
  \<open>no text part found\<close>, not the rendered candidate.
\<close>

theorem extractBodyAsMarkdown_fails_after_html_candidate:
  "isMultipart (exampleLib [examplePart ''text/html'' '''' ''<p>A</p>'', examplePart ''image/png'' '''' ''xx''] exampleDocs)
      exampleMessage [examplePart ''text/html'' '''' ''<p>A</p>'', examplePart ''image/png'' '''' ''xx''] None
   \<and> \<not> isAttachment (examplePart ''text/html'' '''' ''<p>A</p>'')
   \<and> partType (exampleLib [] exampleDocs) (examplePart ''text/html'' '''' ''<p>A</p>'') = str ''text/html''
   \<and> decodePart (exampleLib [] exampleDocs) (examplePart ''text/html'' '''' ''<p>A</p>'') = Inr (str ''<p>A</p>'')
   \<and> htmlToPlain (exampleParse exampleDocs) (\<lambda>s. s) (str ''<p>A</p>'') = Inr (str ''A'')
   \<and> \<not> isAttachment (examplePart ''image/png'' '''' ''xx'')
   \<and> partType (exampleLib [] exampleDocs) (examplePart ''image/png'' '''' ''xx'') = str ''image/png''
   \<and> extractBodyAsMarkdown
        (exampleLib [examplePart ''text/html'' '''' ''<p>A</p>'', examplePart ''image/png'' '''' ''xx''] exampleDocs)
        exampleMessage = Inl NoTextPartFound"
  by code_simp

text \<open>
  C2 is not what the code does: the variable \<^verbatim>\<open>firstHTML\<close> is assigned at every
  \<^verbatim>\<open>text/html\<close> part, so the last one is rendered. With two such parts, \<^verbatim>\<open><p>A</p>\<close> and
  \<^verbatim>\<open><p>B</p>\<close>, the result is \<open>B\<close>, while the first part renders to \<open>A\<close>.
\<close>

theorem extractBodyAsMarkdown_last_html_wins:
  "extractBodyAsMarkdown
        (exampleLib [examplePart ''text/html'' '''' ''<p>A</p>'', examplePart ''text/html'' '''' ''<p>B</p>''] exampleDocs)
        exampleMessage = Inr (str ''B'')
   \<and> htmlToPlain (exampleParse exampleDocs) (\<lambda>s. s) (str ''<p>A</p>'') = Inr (str ''A'')"
  by code_simp

text \<open>
  C6, as stated, fails. The parts that are no attachments are one \<^verbatim>\<open>text/html\<close> part and
  one \<^verbatim>\<open>text/plain\<close> part, in this order; the transfer decoding of the first one ends
  with an error (its base64 content is \<open>!!!\<close>), and \<^verbatim>\<open>extractBodyAsMarkdown\<close> returns
  that error, not the plain text.
\<close>

theorem extractBodyAsMarkdown_html_decode_error_before_plain:
  "isMultipart (exampleLib [examplePart ''text/html'' ''base64'' ''!!!'', examplePart ''text/plain'' '''' '' hello ''] exampleDocs)
      exampleMessage [examplePart ''text/html'' ''base64'' ''!!!'', examplePart ''text/plain'' '''' '' hello ''] None
   \<and> \<not> isAttachment (examplePart ''text/html'' ''base64'' ''!!!'')
   \<and> partType (exampleLib [] exampleDocs) (examplePart ''text/html'' ''base64'' ''!!!'') = str ''text/html''
   \<and> \<not> isAttachment (examplePart ''text/plain'' '''' '' hello '')
   \<and> partType (exampleLib [] exampleDocs) (examplePart ''text/plain'' '''' '' hello '') = str ''text/plain''
   \<and> decodePart (exampleLib [] exampleDocs) (examplePart ''text/plain'' '''' '' hello '') = Inr (str '' hello '')
   \<and> extractBodyAsMarkdown
        (exampleLib [examplePart ''text/html'' ''base64'' ''!!!'', examplePart ''text/plain'' '''' '' hello ''] exampleDocs)
        exampleMessage = Inl (LibError ''unexpected EOF'')"
  by code_simp

text \<open>
  C6, amended. In a multipart message, when the scan reaches a part \<open>q\<close> that is no
  attachment (every part before it is an attachment or a \<^verbatim>\<open>text/html\<close> part that
  decodes), whatever parts \<open>post\<close> follow and however the multipart reader ends (\<open>perr\<close>):
  if \<open>q\<close> is a \<^verbatim>\<open>text/plain\<close> part, the result is its decoded text, trimmed, or the error
  of its decoding; if \<open>q\<close> is a \<^verbatim>\<open>text/html\<close> part whose decoding gives an error, the
  result is that error. And when the parts that are no attachments are exactly one
  \<^verbatim>\<open>text/plain\<close> and one \<^verbatim>\<open>text/html\<close> part, in either order, and both decode, the result
  is the trimmed text of the \<^verbatim>\<open>text/plain\<close> part.
\<close>

theorem extractBodyAsMarkdown_returns_first_plain:
  assumes "isMultipart L msg parts perr"
  shows "(\<forall>pre q post. parts = pre @ q # post \<and> list_all (passed L) pre \<and> \<not> isAttachment q \<longrightarrow>
            (partType L q = str ''text/plain'' \<longrightarrow>
               extractBodyAsMarkdown L msg =
                 (case decodePart L q of Inl e \<Rightarrow> Inl e | Inr b \<Rightarrow> Inr (TrimSpace b)))
            \<and> (partType L q = str ''text/html'' \<longrightarrow>
                 (\<forall>e. decodePart L q = Inl e \<longrightarrow> extractBodyAsMarkdown L msg = Inl e)))
         \<and> (\<forall>p h b c. partType L p = str ''text/plain'' \<and> partType L h = str ''text/html''
                \<and> (nonAttachments parts = [p, h] \<or> nonAttachments parts = [h, p])
                \<and> decodePart L p = Inr b \<and> decodePart L h = Inr c
              \<longrightarrow> extractBodyAsMarkdown L msg = Inr (TrimSpace b))"
proof (intro conjI allI impI)
  note m = extractBodyAsMarkdown_multipart [OF assms]
  {
    fix pre q post
    assume a: "parts = pre @ q # post \<and> list_all (passed L) pre \<and> \<not> isAttachment q"
    then obtain h where h: "scanParts L parts perr [] = scanParts L (q # post) perr h"
      using scanParts_passed [of L pre "q # post" perr "[]"] by auto
    {
      assume "partType L q = str ''text/plain''"
      with a h m show "extractBodyAsMarkdown L msg =
                 (case decodePart L q of Inl e \<Rightarrow> Inl e | Inr b \<Rightarrow> Inr (TrimSpace b))"
        by simp
    }
    {
      fix e
      assume "partType L q = str ''text/html''" "decodePart L q = Inl e"
      with a h m html_not_plain show "extractBodyAsMarkdown L msg = Inl e"
        by simp
    }
  }
  {
    fix p h b c
    assume a: "partType L p = str ''text/plain'' \<and> partType L h = str ''text/html''
                \<and> (nonAttachments parts = [p, h] \<or> nonAttachments parts = [h, p])
                \<and> decodePart L p = Inr b \<and> decodePart L h = Inr c"
    then have na: "\<not> isAttachment p" "\<not> isAttachment h"
      using nonAttachments_member [of parts _ p] nonAttachments_member [of parts _ h] by auto
    from a consider "nonAttachments parts = [p, h]" | "nonAttachments parts = [h, p]"
      by blast
    then have "scanParts L (nonAttachments parts) perr [] = Inr (TrimSpace b)"
    proof cases
      case 1
      with a na show ?thesis by simp
    next
      case 2
      with a na html_not_plain show ?thesis by simp
    qed
    with m show "extractBodyAsMarkdown L msg = Inr (TrimSpace b)"
      by (simp add: scanParts_nonAttachments [symmetric])
  }
qed

text \<open>
  Five messages: a \<^verbatim>\<open>text/html\<close> part, then the \<^verbatim>\<open>text/plain\<close> part, then a part that
  would make the scan fail if it were reached; a \<^verbatim>\<open>text/plain\<close> part whose base64 content
  cannot be read, after an attachment; a \<^verbatim>\<open>text/html\<close> part of that kind before the
  \<^verbatim>\<open>text/plain\<close> part; and the two orders of a \<^verbatim>\<open>text/plain\<close> and a \<^verbatim>\<open>text/html\<close> part
  that decode, with an attachment between them.
\<close>

theorem extractBodyAsMarkdown_returns_first_plain_witness:
  "extractBodyAsMarkdown
        (exampleLib [examplePart ''text/html'' '''' ''<p>A</p>'', examplePart ''text/plain'' '''' '' hello '',
                     examplePart ''image/png'' '''' ''xx''] exampleDocs)
        exampleMessage = Inr (str ''hello'')
   \<and> extractBodyAsMarkdown
        (exampleLib [exampleAttachment, examplePart ''text/plain'' ''base64'' ''!!!'',
                     examplePart ''text/html'' '''' ''<p>A</p>''] exampleDocs)
        exampleMessage = Inl (LibError ''unexpected EOF'')
   \<and> extractBodyAsMarkdown
        (exampleLib [exampleAttachment, examplePart ''text/html'' ''base64'' ''!!!'',
                     examplePart ''text/plain'' '''' '' hello ''] exampleDocs)
        exampleMessage = Inl (LibError ''unexpected EOF'')
   \<and> extractBodyAsMarkdown
        (exampleLib [examplePart ''text/plain'' '''' '' hello '', exampleAttachment,
                     examplePart ''text/html'' '''' ''<p>A</p>''] exampleDocs)
        exampleMessage = Inr (str ''hello'')
   \<and> extractBodyAsMarkdown
        (exampleLib [examplePart ''text/html'' '''' ''<p>A</p>'', exampleAttachment,
                     examplePart ''text/plain'' '''' '' hello ''] exampleDocs)
        exampleMessage = Inr (str ''hello'')"
proof -
  let ?h = "examplePart ''text/html'' '''' ''<p>A</p>''"
  let ?q = "examplePart ''text/plain'' '''' '' hello ''"
  let ?x = "examplePart ''image/png'' '''' ''xx''"
  let ?a = "exampleAttachment"
  let ?qe = "examplePart ''text/plain'' ''base64'' ''!!!''"
  let ?he = "examplePart ''text/html'' ''base64'' ''!!!''"
  have t: "TrimSpace (str '' hello '') = str ''hello''"
    by code_simp
  have 1: "extractBodyAsMarkdown (exampleLib [?h, ?q, ?x] exampleDocs) exampleMessage = Inr (str ''hello'')"
  proof -
    let ?L = "exampleLib [?h, ?q, ?x] exampleDocs"
    have m: "isMultipart ?L exampleMessage [?h, ?q, ?x] None"
      by code_simp
    have p: "[?h, ?q, ?x] = [?h] @ ?q # [?x] \<and> list_all (passed ?L) [?h] \<and> \<not> isAttachment ?q"
      by code_simp
    have q: "partType ?L ?q = str ''text/plain''" "decodePart ?L ?q = Inr (str '' hello '')"
      by code_simp+
    from extractBodyAsMarkdown_returns_first_plain [OF m] p
    have "(partType ?L ?q = str ''text/plain'' \<longrightarrow>
               extractBodyAsMarkdown ?L exampleMessage =
                 (case decodePart ?L ?q of Inl e \<Rightarrow> Inl e | Inr b \<Rightarrow> Inr (TrimSpace b)))"
      by blast
    with q t show ?thesis by simp
  qed
  have 2: "extractBodyAsMarkdown (exampleLib [?a, ?qe, ?h] exampleDocs) exampleMessage
             = Inl (LibError ''unexpected EOF'')"
  proof -
    let ?L = "exampleLib [?a, ?qe, ?h] exampleDocs"
    have m: "isMultipart ?L exampleMessage [?a, ?qe, ?h] None"
      by code_simp
    have p: "[?a, ?qe, ?h] = [?a] @ ?qe # [?h] \<and> list_all (passed ?L) [?a] \<and> \<not> isAttachment ?qe"
      by code_simp
    have q: "partType ?L ?qe = str ''text/plain''" "decodePart ?L ?qe = Inl (LibError ''unexpected EOF'')"
      by code_simp+
    from extractBodyAsMarkdown_returns_first_plain [OF m] p
    have "(partType ?L ?qe = str ''text/plain'' \<longrightarrow>
               extractBodyAsMarkdown ?L exampleMessage =
                 (case decodePart ?L ?qe of Inl e \<Rightarrow> Inl e | Inr b \<Rightarrow> Inr (TrimSpace b)))"
      by blast
    with q show ?thesis by simp
  qed
  have 3: "extractBodyAsMarkdown (exampleLib [?a, ?he, ?q] exampleDocs) exampleMessage
             = Inl (LibError ''unexpected EOF'')"
  proof -
    let ?L = "exampleLib [?a, ?he, ?q] exampleDocs"
    have m: "isMultipart ?L exampleMessage [?a, ?he, ?q] None"
      by code_simp
    have p: "[?a, ?he, ?q] = [?a] @ ?he # [?q] \<and> list_all (passed ?L) [?a] \<and> \<not> isAttachment ?he"
      by code_simp
    have q: "partType ?L ?he = str ''text/html''" "decodePart ?L ?he = Inl (LibError ''unexpected EOF'')"
      by code_simp+
    from extractBodyAsMarkdown_returns_first_plain [OF m] p
    have "(partType ?L ?he = str ''text/html'' \<longrightarrow>
                 (\<forall>e. decodePart ?L ?he = Inl e \<longrightarrow> extractBodyAsMarkdown ?L exampleMessage = Inl e))"
      by blast
    with q show ?thesis by simp
  qed
  have 4: "extractBodyAsMarkdown (exampleLib [?q, ?a, ?h] exampleDocs) exampleMessage = Inr (str ''hello'')"
  proof -
    let ?L = "exampleLib [?q, ?a, ?h] exampleDocs"
    have m: "isMultipart ?L exampleMessage [?q, ?a, ?h] None"
      by code_simp
    have p: "partType ?L ?q = str ''text/plain'' \<and> partType ?L ?h = str ''text/html''
                \<and> (nonAttachments [?q, ?a, ?h] = [?q, ?h] \<or> nonAttachments [?q, ?a, ?h] = [?h, ?q])
                \<and> decodePart ?L ?q = Inr (str '' hello '') \<and> decodePart ?L ?h = Inr (str ''<p>A</p>'')"
      by code_simp
    from extractBodyAsMarkdown_returns_first_plain [OF m] p
    have "extractBodyAsMarkdown ?L exampleMessage = Inr (TrimSpace (str '' hello ''))"
      by blast
    with t show ?thesis by simp
  qed
  have 5: "extractBodyAsMarkdown (exampleLib [?h, ?a, ?q] exampleDocs) exampleMessage = Inr (str ''hello'')"
  proof -
    let ?L = "exampleLib [?h, ?a, ?q] exampleDocs"
    have m: "isMultipart ?L exampleMessage [?h, ?a, ?q] None"
      by code_simp
    have p: "partType ?L ?q = str ''text/plain'' \<and> partType ?L ?h = str ''text/html''
                \<and> (nonAttachments [?h, ?a, ?q] = [?q, ?h] \<or> nonAttachments [?h, ?a, ?q] = [?h, ?q])
                \<and> decodePart ?L ?q = Inr (str '' hello '') \<and> decodePart ?L ?h = Inr (str ''<p>A</p>'')"
      by code_simp
    from extractBodyAsMarkdown_returns_first_plain [OF m] p
    have "extractBodyAsMarkdown ?L exampleMessage = Inr (TrimSpace (str '' hello ''))"
      by blast
    with t show ?thesis by simp
  qed
  from 1 2 3 4 5 show ?thesis
    by blast
qed

end
